theory Spec2Isabelle
  imports Main
begin

section \<open>Strings\<close>

text \<open>
  A JavaScript string is a sequence of UTF-16 code units. The store and the import are
  modelled on the strings whose code units lie in U+0000..U+00FF: a \<^typ>\<open>char\<close> is one
  code unit, read as a number by \<^term>\<open>of_char\<close>. On that range
  \<open>String.prototype.toLowerCase\<close> and \<open>String.prototype.trim\<close> are closed, so the
  functions of the program are modelled exactly there. The identity key is modelled a
  second time on strings of arbitrary code units, further down.
\<close>

definition isWhiteSpace :: "char \<Rightarrow> bool" where
  \<comment> \<open>WhiteSpace and LineTerminator of ECMAScript, below U+0100:
      TAB, LF, VT, FF, CR, SPACE, NO-BREAK SPACE.\<close>
  "isWhiteSpace c = (of_char c \<in> {9, 10, 11, 12, 13, 32, 160 :: nat})"

definition trim :: "string \<Rightarrow> string" where
  \<comment> \<open>\<open>String.prototype.trim\<close>: white space removed from both ends.\<close>
  "trim s = rev (dropWhile isWhiteSpace (rev (dropWhile isWhiteSpace s)))"

definition isUpperCased :: "char \<Rightarrow> bool" where
  \<comment> \<open>The code units below U+0100 with a lower-case mapping: A-Z and U+00C0..U+00DE
      without the multiplication sign U+00D7.\<close>
  "isUpperCased c = (let n = (of_char c :: nat) in
     (65 \<le> n \<and> n \<le> 90) \<or> (192 \<le> n \<and> n \<le> 222 \<and> n \<noteq> 215))"

definition toLowerChar :: "char \<Rightarrow> char" where
  "toLowerChar c = (if isUpperCased c then char_of (of_char c + 32 :: nat) else c)"

definition toLowerCase :: "string \<Rightarrow> string" where
  \<comment> \<open>\<open>String.prototype.toLowerCase\<close>.\<close>
  "toLowerCase s = map toLowerChar s"

section \<open>Identity key\<close>

definition makeKey :: "string \<Rightarrow> string \<Rightarrow> string" where
  \<comment> \<open>\<open>`${title.toLowerCase().trim()}::${author.toLowerCase().trim()}`\<close>\<close>
  "makeKey title author = trim (toLowerCase title) @ ''::'' @ trim (toLowerCase author)"

section \<open>Strings of arbitrary code units\<close>

text \<open>
  For the identity key on every JavaScript string, a string is a list of code units, each a
  number (below 65536 in a real string; the model takes any number). White space is known in
  full. The case mappings of the runtime are tables that the program does not contain:
  \<open>toLowerCase\<close> and \<open>toUpperCase\<close> are parameters, functions from strings to strings.
\<close>

type_synonym utf16 = "nat list"

definition units :: "string \<Rightarrow> utf16" where
  \<comment> \<open>The code units of a string of the 8-bit model.\<close>
  "units s = map of_char s"

definition isWhiteSpace16 :: "nat \<Rightarrow> bool" where
  \<comment> \<open>WhiteSpace and LineTerminator of ECMAScript: TAB, LF, VT, FF, CR, SPACE, U+00A0,
      U+1680, U+2000..U+200A, U+2028, U+2029, U+202F, U+205F, U+3000, U+FEFF.\<close>
  "isWhiteSpace16 u =
     (u \<in> {9, 10, 11, 12, 13, 32, 160, 5760, 8232, 8233, 8239, 8287, 12288, 65279}
      \<or> (8192 \<le> u \<and> u \<le> 8202))"

definition trim16 :: "utf16 \<Rightarrow> utf16" where
  \<comment> \<open>\<open>String.prototype.trim\<close>\<close>
  "trim16 s = rev (dropWhile isWhiteSpace16 (rev (dropWhile isWhiteSpace16 s)))"

definition makeKey16 :: "(utf16 \<Rightarrow> utf16) \<Rightarrow> utf16 \<Rightarrow> utf16 \<Rightarrow> utf16" where
  \<comment> \<open>\<open>makeKey\<close> on every string:
      \<open>`${title.toLowerCase().trim()}::${author.toLowerCase().trim()}`\<close>\<close>
  "makeKey16 toLower title author =
     trim16 (toLower title) @ units ''::'' @ trim16 (toLower author)"

definition identityKey_spec :: "(utf16 \<Rightarrow> utf16) \<Rightarrow> utf16 \<Rightarrow> utf16 \<Rightarrow> utf16" where
  \<comment> \<open>The spec's words: \<open>lowercase(trim(title)) + "::" + lowercase(trim(author))\<close>.\<close>
  "identityKey_spec toLower title author =
     toLower (trim16 title) @ units ''::'' @ toLower (trim16 author)"

text \<open>
  What the theorems ask of the runtime's \<open>toLowerCase\<close>. White space has no case and no
  cased neighbour depends on it, so white space at the ends of a string stays as it is
  and the rest is lower-cased as it would be alone; and the lower-case form of a string that
  begins (ends) with a code unit that is not white space begins (ends) with such a unit.
\<close>

definition lower_keeps_white :: "(utf16 \<Rightarrow> utf16) \<Rightarrow> bool" where
  "lower_keeps_white toLower =
     (toLower [] = []
      \<and> (\<forall>l s r. list_all isWhiteSpace16 l \<and> list_all isWhiteSpace16 r
            \<longrightarrow> toLower (l @ s @ r) = l @ toLower s @ r)
      \<and> (\<forall>s. s \<noteq> [] \<and> \<not> isWhiteSpace16 (hd s)
            \<longrightarrow> toLower s \<noteq> [] \<and> \<not> isWhiteSpace16 (hd (toLower s)))
      \<and> (\<forall>s. s \<noteq> [] \<and> \<not> isWhiteSpace16 (last s)
            \<longrightarrow> toLower s \<noteq> [] \<and> \<not> isWhiteSpace16 (last (toLower s))))"

definition lowerAscii :: "nat \<Rightarrow> nat" where
  "lowerAscii u = (if 65 \<le> u \<and> u \<le> 90 then u + 32 else u)"

definition upperAscii :: "nat \<Rightarrow> nat" where
  "upperAscii u = (if 97 \<le> u \<and> u \<le> 122 then u - 32 else u)"

definition ascii_case :: "(utf16 \<Rightarrow> utf16) \<Rightarrow> (utf16 \<Rightarrow> utf16) \<Rightarrow> bool" where
  \<comment> \<open>On ASCII strings the two mappings exchange A-Z and a-z, unit by unit.\<close>
  "ascii_case toLower toUpper =
     (\<forall>s. list_all (\<lambda>u. u < 128) s
        \<longrightarrow> toLower s = map lowerAscii s \<and> toUpper s = map upperAscii s)"

definition latin1_lower :: "(utf16 \<Rightarrow> utf16) \<Rightarrow> bool" where
  \<comment> \<open>On the strings of the 8-bit model, \<open>toLowerCase\<close> is the function of that model.\<close>
  "latin1_lower toLower = (\<forall>s. toLower (units s) = units (toLowerCase s))"

text \<open>
  Rows of the runtime's tables, to run the definitions on written-out strings: the rows of
  the code units up to U+00FF and of U+0131 (dotless i), U+017F (long s) and U+FB01
  (ligature fi). A unit outside these rows is left alone here, which the real tables do
  not do for every such unit; the examples stay inside the rows.
\<close>

definition lowerRow :: "nat \<Rightarrow> utf16" where
  "lowerRow u =
     (if (65 \<le> u \<and> u \<le> 90) \<or> (192 \<le> u \<and> u \<le> 222 \<and> u \<noteq> 215) then [u + 32] else [u])"

definition upperRow :: "nat \<Rightarrow> utf16" where
  "upperRow u =
     (if (97 \<le> u \<and> u \<le> 122) \<or> (224 \<le> u \<and> u \<le> 254 \<and> u \<noteq> 247) then [u - 32]
      else if u = 223 then [83, 83]
      else if u = 181 then [924]
      else if u = 255 then [376]
      else if u = 305 then [73]
      else if u = 383 then [83]
      else if u = 64257 then [70, 73]
      else [u])"

definition toLowerRows :: "utf16 \<Rightarrow> utf16" where
  "toLowerRows s = concat (map lowerRow s)"

definition toUpperRows :: "utf16 \<Rightarrow> utf16" where
  "toUpperRows s = concat (map upperRow s)"

section \<open>Data model\<close>

datatype source = goodreads | manual | recommended

text \<open>
  \<open>Omit<BookEntry, 'book_key' | 'date_updated'>\<close> is the record \<open>book_fields\<close>, and
  \<open>BookEntry\<close> extends it by the two omitted fields. As in TypeScript, a \<open>BookEntry\<close> can be
  passed where only the fields of \<open>book_fields\<close> are asked for: the store's functions take a
  \<open>'a book_fields_scheme\<close>. \<open>rating\<close> is a JavaScript number that the program only ever
  sets to an integer. An optional field that is absent or \<open>undefined\<close> is \<open>None\<close>.
\<close>

record book_fields =
  title :: string
  author :: string
  rating :: int
  shelf :: string
  genre :: "string option"
  review :: "string option"
  bookshelves :: "string option"
  isbn :: "string option"
  source :: source

record BookEntry = book_fields +
  book_key :: string
  date_updated :: string

definition stamp :: "'a book_fields_scheme \<Rightarrow> string \<Rightarrow> string \<Rightarrow> BookEntry" where
  \<comment> \<open>\<open>{ ...b, book_key: key, date_updated: now }\<close>: the fields of \<open>b\<close>, with \<open>book_key\<close>
      and \<open>date_updated\<close> set (over whatever \<open>b\<close> carried there).\<close>
  "stamp b key now =
     book_fields.extend (book_fields.truncate b) \<lparr> book_key = key, date_updated = now \<rparr>"

section \<open>JavaScript containers\<close>

text \<open>
  A \<open>Map\<close> keeps its entries in insertion order: an association list with one pair per key.
  \<open>set\<close> on a key that is present replaces the value in place, on a new key it appends.
\<close>

fun Map_set :: "'k \<Rightarrow> 'v \<Rightarrow> ('k \<times> 'v) list \<Rightarrow> ('k \<times> 'v) list" where
  "Map_set k v [] = [(k, v)]"
| "Map_set k v ((k', v') # m) = (if k' = k then (k, v) # m else (k', v') # Map_set k v m)"

definition Map_get :: "'k \<Rightarrow> ('k \<times> 'v) list \<Rightarrow> 'v option" where
  "Map_get k m = map_of m k"

definition new_Map :: "('k \<times> 'v) list \<Rightarrow> ('k \<times> 'v) list" where
  \<comment> \<open>\<open>new Map(entries)\<close> sets the entries one after the other.\<close>
  "new_Map entries = foldl (\<lambda>m (k, v). Map_set k v m) [] entries"

definition Map_values :: "('k \<times> 'v) list \<Rightarrow> 'v list" where
  "Map_values m = map snd m"

definition Map_size :: "('k \<times> 'v) list \<Rightarrow> nat" where
  "Map_size m = length m"

fun findIndex :: "('a \<Rightarrow> bool) \<Rightarrow> 'a list \<Rightarrow> nat option" where
  \<comment> \<open>\<open>Array.prototype.findIndex\<close>; \<open>None\<close> is the result \<open>-1\<close>.\<close>
  "findIndex P [] = None"
| "findIndex P (x # xs) = (if P x then Some 0 else map_option Suc (findIndex P xs))"

fun Set_add :: "'a \<Rightarrow> 'a list \<Rightarrow> 'a list" where
  \<comment> \<open>A \<open>Set\<close> in insertion order; adding a member again changes nothing.\<close>
  "Set_add x [] = [x]"
| "Set_add x (y # ys) = (if y = x then y # ys else y # Set_add x ys)"

definition new_Set :: "'a list \<Rightarrow> 'a list" where
  \<comment> \<open>\<open>Array.from(new Set(xs))\<close>\<close>
  "new_Set xs = foldl (\<lambda>acc x. Set_add x acc) [] xs"

section \<open>Reading the persisted blobs\<close>

text \<open>
  \<open>localStorage.getItem\<close> gives the blob of a slot, \<open>null\<close> (\<open>None\<close>) when the slot is missing,
  or throws when the storage cannot be accessed; \<open>JSON.parse\<close> throws or gives the decoded
  value, which is an array or any other JSON value. Both are parameters. The elements of a
  decoded array are taken at the declared type; what a value that is not an array contains
  plays no part. A \<open>try\<close>/\<open>catch\<close> turns a thrown value into a result.
\<close>

datatype exn = SyntaxError | DOMException | TypeError

datatype 'a json = JArray "'a list" | JNull | JBoolean | JNumber | JString | JObject

definition STORE_KEY :: string where
  "STORE_KEY = ''bookStore''"

definition SHOWN_KEY :: string where
  "SHOWN_KEY = ''shownBookIds''"

definition try_catch :: "exn + 'a \<Rightarrow> (exn \<Rightarrow> exn + 'a) \<Rightarrow> exn + 'a" where
  "try_catch body handler = (case body of Inl e \<Rightarrow> handler e | Inr v \<Rightarrow> Inr v)"

definition read_slot ::
  "(string \<Rightarrow> exn + 'a json) \<Rightarrow> (string \<Rightarrow> exn + string option) \<Rightarrow> string \<Rightarrow> exn + 'a json" where
  \<comment> \<open>\<open>const raw = localStorage.getItem(KEY); return raw ? JSON.parse(raw) : []\<close>;
      the empty string is falsy.\<close>
  "read_slot JSON_parse getItem slot =
     (case getItem slot of
        Inl e \<Rightarrow> Inl e
      | Inr raw \<Rightarrow>
          (case raw of
             None \<Rightarrow> Inr (JArray [])
           | Some r \<Rightarrow> if r \<noteq> [] then JSON_parse r else Inr (JArray [])))"

definition readStore ::
  "(string \<Rightarrow> exn + 'a json) \<Rightarrow> (string \<Rightarrow> exn + string option) \<Rightarrow> exn + 'a json" where
  "readStore JSON_parse getItem =
     try_catch (read_slot JSON_parse getItem STORE_KEY) (\<lambda>e. Inr (JArray []))"

definition getShownBookIds ::
  "(string \<Rightarrow> exn + 'a json) \<Rightarrow> (string \<Rightarrow> exn + string option) \<Rightarrow> exn + 'a json" where
  "getShownBookIds JSON_parse getItem =
     try_catch (read_slot JSON_parse getItem SHOWN_KEY) (\<lambda>e. Inr (JArray []))"

definition call_filter :: "('a \<Rightarrow> bool) \<Rightarrow> 'a json \<Rightarrow> exn + 'a list" where
  \<comment> \<open>\<open>v.filter(p)\<close> on a decoded value: \<open>null\<close> has no properties, and no other JSON value
      than an array has a method \<open>filter\<close>: a \<open>TypeError\<close>.\<close>
  "call_filter p v = (case v of JArray xs \<Rightarrow> Inr (filter p xs) | _ \<Rightarrow> Inl TypeError)"

section \<open>The record store\<close>

text \<open>
  The operations below take the array that \<open>readStore()\<close> returned and give the array that
  they hand to \<open>writeStore\<close>: \<open>JSON.stringify\<close> followed by \<open>JSON.parse\<close> gives back the array
  of plain records that was written, so the array one operation writes is the array the
  next one reads. Each \<open>new Date().toISOString()\<close> reads a clock: \<open>mergeBooks\<close> takes the
  readings of its loop as a function of the iteration, \<open>upsertBook\<close> takes its one reading.
\<close>

text \<open>The result \<open>{ total, updated }\<close>; the field \<open>total\<close> is named \<open>total_count\<close> here.\<close>

record merge_result =
  total_count :: nat
  updated :: nat

fun merge_loop ::
  "(nat \<Rightarrow> string) \<Rightarrow> nat \<Rightarrow> 'a book_fields_scheme list \<Rightarrow> (string \<times> BookEntry) list \<Rightarrow> nat
     \<Rightarrow> (string \<times> BookEntry) list \<times> nat" where
  "merge_loop clock i [] storeMap upd = (storeMap, upd)"
| "merge_loop clock i (b # bs) storeMap upd =
     (let key = makeKey (title b) (author b);
          existing = Map_get key storeMap;
          upd' = (if existing \<noteq> None then upd + 1 else upd)
      in merge_loop clock (Suc i) bs (Map_set key (stamp b key (clock i)) storeMap) upd')"

definition mergeBooks ::
  "(nat \<Rightarrow> string) \<Rightarrow> 'a book_fields_scheme list \<Rightarrow> BookEntry list
     \<Rightarrow> BookEntry list \<times> merge_result" where
  "mergeBooks clock incoming store =
     (let storeMap = new_Map (map (\<lambda>e. (book_key e, e)) store);
          r = merge_loop clock 0 incoming storeMap 0
      in (Map_values (fst r), \<lparr> total_count = Map_size (fst r), updated = snd r \<rparr>))"

definition merged_map ::
  "(nat \<Rightarrow> string) \<Rightarrow> 'a book_fields_scheme list \<Rightarrow> BookEntry list
     \<Rightarrow> (string \<times> BookEntry) list \<times> nat" where
  \<comment> \<open>The \<open>storeMap\<close> and the counter of \<open>mergeBooks\<close> when its loop ends.\<close>
  "merged_map clock incoming store =
     merge_loop clock 0 incoming (new_Map (map (\<lambda>e. (book_key e, e)) store)) 0"

definition upsertBook :: "string \<Rightarrow> 'a book_fields_scheme \<Rightarrow> BookEntry list \<Rightarrow> BookEntry list" where
  "upsertBook now book store =
     (let key = makeKey (title book) (author book);
          idx = findIndex (\<lambda>e. book_key e = key) store;
          entry = stamp book key now
      in case idx of Some i \<Rightarrow> store[i := entry] | None \<Rightarrow> store @ [entry])"

definition getRatedBooks :: "BookEntry list \<Rightarrow> BookEntry list" where
  "getRatedBooks store = filter (\<lambda>e. rating e \<ge> 1) store"

definition getRatedBooks_call ::
  "(string \<Rightarrow> exn + BookEntry json) \<Rightarrow> (string \<Rightarrow> exn + string option) \<Rightarrow> exn + BookEntry list" where
  \<comment> \<open>The whole call \<open>getRatedBooks()\<close>, from the blob:
      \<open>readStore().filter(e => e.rating >= 1)\<close>; the method call is outside any \<open>try\<close>.\<close>
  "getRatedBooks_call JSON_parse getItem =
     (case readStore JSON_parse getItem of
        Inl e \<Rightarrow> Inl e
      | Inr v \<Rightarrow> call_filter (\<lambda>e. rating e \<ge> 1) v)"

definition getAllBooks :: "BookEntry list \<Rightarrow> BookEntry list" where
  "getAllBooks store = store"

definition getBookCount :: "BookEntry list \<Rightarrow> nat" where
  "getBookCount store = length store"

datatype 'a store_op =
  MergeAll "nat \<Rightarrow> string" "'a book_fields_scheme list"
| UpsertOne string "'a book_fields_scheme"

fun apply_op :: "BookEntry list \<Rightarrow> 'a store_op \<Rightarrow> BookEntry list" where
  "apply_op store (MergeAll clock incoming) = fst (mergeBooks clock incoming store)"
| "apply_op store (UpsertOne now book) = upsertBook now book store"

definition run_ops :: "'a store_op list \<Rightarrow> BookEntry list" where
  \<comment> \<open>The store after a sequence of operations on the empty store.\<close>
  "run_ops ops = foldl apply_op [] ops"

definition key_of :: "'a book_fields_scheme \<Rightarrow> string" where
  \<comment> \<open>The identity key a record is stored under: \<open>makeKey(b.title, b.author)\<close>.\<close>
  "key_of b = makeKey (title b) (author b)"

definition store_invariant :: "BookEntry list \<Rightarrow> bool" where
  \<comment> \<open>The invariant of the data model: one record per identity key, and each record's key is
      the key of its own title and author.\<close>
  "store_invariant store =
     (distinct (map book_key store) \<and> list_all (\<lambda>e. book_key e = key_of e) store)"

section \<open>The shown set\<close>

definition addShownBookIds :: "string list \<Rightarrow> string list \<Rightarrow> string list" where
  \<comment> \<open>\<open>Array.from(new Set([...current, ...ids]))\<close>, where \<open>current\<close> is what
      \<open>getShownBookIds()\<close> returned; the result is the array written back.\<close>
  "addShownBookIds ids current = new_Set (current @ ids)"

definition clearShownBookIds :: "string list" where
  \<comment> \<open>After \<open>localStorage.removeItem(SHOWN_KEY)\<close> the slot is missing and reads as \<open>[]\<close>.\<close>
  "clearShownBookIds = []"

section \<open>The CSV import adapter\<close>

text \<open>
  The tokenizer (Papa Parse, with \<open>header: true\<close>) is outside the program: it calls
  \<open>complete\<close> with the rows, each an object from column name to cell text, or \<open>error\<close>
  with a message. A row is a map; a column the row lacks is \<open>None\<close> (\<open>undefined\<close>).
\<close>

type_synonym RawRow = "string \<Rightarrow> string option"

datatype papa_outcome = Papa_complete "RawRow list" | Papa_error string

datatype import_error = EmptyInput | SchemaMismatch "string list" | ParseFailure string

fun join :: "string \<Rightarrow> string list \<Rightarrow> string" where
  "join sep [] = []"
| "join sep [x] = x"
| "join sep (x # y # ys) = x @ sep @ join sep (y # ys)"

fun error_message :: "import_error \<Rightarrow> string" where
  \<comment> \<open>The message of the \<open>Error\<close> the promise is rejected with.\<close>
  "error_message EmptyInput = ''CSV file is empty''"
| "error_message (SchemaMismatch missing) =
     ''This doesn'' @ [CHR 0x27] @ ''t look like a Goodreads export. Missing columns: ''
       @ join '', '' missing"
| "error_message (ParseFailure msg) = ''CSV parse error: '' @ msg"

definition or_else :: "string option \<Rightarrow> string \<Rightarrow> string" where
  \<comment> \<open>\<open>x || d\<close> for a string \<open>x\<close> that may be \<open>undefined\<close>: the empty string is falsy.\<close>
  "or_else x d = (case x of None \<Rightarrow> d | Some v \<Rightarrow> if v \<noteq> [] then v else d)"

definition or_undefined :: "string option \<Rightarrow> string option" where
  \<comment> \<open>\<open>x || undefined\<close>\<close>
  "or_undefined x = (case x of None \<Rightarrow> None | Some v \<Rightarrow> if v \<noteq> [] then Some v else None)"

definition js_or :: "string option \<Rightarrow> string option \<Rightarrow> string option" where
  \<comment> \<open>\<open>x || y\<close>\<close>
  "js_or x y = (case x of None \<Rightarrow> y | Some v \<Rightarrow> if v \<noteq> [] then Some v else y)"

definition strip_eq_start :: "string \<Rightarrow> string" where
  \<comment> \<open>\<open>.replace(/^="?/, '')\<close>\<close>
  "strip_eq_start v =
     (case v of
        [] \<Rightarrow> v
      | c # r \<Rightarrow>
          if c = CHR ''='' then (case r of [] \<Rightarrow> r | d # r' \<Rightarrow> if d = CHR 0x22 then r' else r)
          else v)"

definition strip_quote_end :: "string \<Rightarrow> string" where
  \<comment> \<open>\<open>.replace(/"?$/, '')\<close>\<close>
  "strip_quote_end v = (if v \<noteq> [] \<and> last v = CHR 0x22 then butlast v else v)"

definition cleanIsbn :: "string option \<Rightarrow> string option" where
  "cleanIsbn val =
     (case val of
        None \<Rightarrow> None
      | Some v \<Rightarrow>
          if v = [] then None
          else or_undefined (Some (trim (strip_quote_end (strip_eq_start v)))))"

definition isDigit :: "char \<Rightarrow> bool" where
  "isDigit c = (48 \<le> (of_char c :: nat) \<and> (of_char c :: nat) \<le> 57)"

definition digits_value :: "string \<Rightarrow> nat" where
  "digits_value ds = foldl (\<lambda>acc c. 10 * acc + (of_char c - 48)) 0 ds"

definition parseInt :: "string \<Rightarrow> int option" where
  \<comment> \<open>\<open>parseInt(s, 10)\<close>: leading white space, a sign, then the longest run of decimal
      digits; \<open>None\<close> is \<open>NaN\<close>. The result is the number the digits denote. JavaScript
      holds it in a double: past \<open>2^53\<close> it rounds, and past the range of a double it gives
      \<open>Infinity\<close>; the model does not follow it there, and no statement below is about the
      rating of a row with such a cell.\<close>
  "parseInt s =
     (let t = dropWhile isWhiteSpace s;
          neg = (t \<noteq> [] \<and> hd t = CHR ''-'');
          u = (if t \<noteq> [] \<and> (hd t = CHR ''-'' \<or> hd t = CHR ''+'') then tl t else t);
          ds = takeWhile isDigit u
      in if ds = [] then None
         else Some (if neg then - int (digits_value ds) else int (digits_value ds)))"

definition required :: "string list" where
  "required = [''Title'', ''Author'', ''My Rating'', ''Exclusive Shelf'']"

definition title_nonblank :: "RawRow \<Rightarrow> bool" where
  \<comment> \<open>\<open>row['Title']?.trim()\<close> is truthy.\<close>
  "title_nonblank row = (case row ''Title'' of None \<Rightarrow> False | Some t \<Rightarrow> trim t \<noteq> [])"

definition row_to_book :: "string \<Rightarrow> RawRow \<Rightarrow> BookEntry" where
  "row_to_book now row =
     (let title = or_else (map_option trim (row ''Title'')) [];
          author = or_else (map_option trim (row ''Author'')) [];
          rating = (case parseInt (or_else (row ''My Rating'') ''0'') of
                      None \<Rightarrow> 0 | Some n \<Rightarrow> if n \<noteq> 0 then n else 0);
          shelf = or_else (map_option trim (row ''Exclusive Shelf'')) ''read''
      in \<lparr> title = title, author = author, rating = rating, shelf = shelf, genre = None,
           review = or_undefined (map_option trim (row ''My Review'')),
           bookshelves = or_undefined (map_option trim (row ''Bookshelves'')),
           isbn = cleanIsbn (js_or (row ''ISBN'') (row ''ISBN13'')),
           source = goodreads,
           book_key = makeKey title author,
           date_updated = now \<rparr>)"

definition parseGoodreadsCSV ::
  "(nat \<Rightarrow> string) \<Rightarrow> papa_outcome \<Rightarrow> import_error + BookEntry list" where
  \<comment> \<open>\<open>Inl\<close> is \<open>reject\<close>, \<open>Inr\<close> is \<open>resolve\<close>; \<open>clock i\<close> is the clock reading for the
      \<open>i\<close>-th row that is mapped.\<close>
  "parseGoodreadsCSV clock outcome =
     (case outcome of
        Papa_error msg \<Rightarrow> Inl (ParseFailure msg)
      | Papa_complete rows \<Rightarrow>
          if length rows = 0 then Inl EmptyInput
          else
            let firstRow = hd rows;
                missing = filter (\<lambda>col. firstRow col = None) required
            in if length missing > 0 then Inl (SchemaMismatch missing)
               else Inr (map (\<lambda>(i, row). row_to_book (clock i) row)
                          (enumerate 0 (filter title_nonblank rows))))"

section \<open>Example inputs\<close>

definition noon :: string where
  "noon = ''2024-05-01T12:00:00.000Z''"

definition later :: string where
  "later = ''2024-06-01T12:00:00.000Z''"

definition dune_row :: RawRow where
  "dune_row = map_of [(''Title'', ''Dune''), (''Author'', ''Frank Herbert''),
     (''My Rating'', ''5''), (''Exclusive Shelf'', ''read'')]"

definition blank_row :: RawRow where
  "blank_row = map_of [(''Title'', ''  ''), (''Author'', ''Nobody''),
     (''My Rating'', ''3''), (''Exclusive Shelf'', ''read'')]"

definition no_author_row :: RawRow where
  "no_author_row = map_of [(''Title'', ''Dune''), (''My Rating'', ''5''),
     (''Exclusive Shelf'', ''read'')]"

definition dune_entry :: BookEntry where
  "dune_entry = \<lparr> title = ''Dune'', author = ''Frank Herbert'', rating = 5, shelf = ''read'',
     genre = None, review = None, bookshelves = None, isbn = None, source = goodreads,
     book_key = ''dune::frank herbert'', date_updated = noon \<rparr>"

definition dune_manual :: book_fields where
  "dune_manual = \<lparr> title = ''Dune'', author = ''Frank Herbert'', rating = 4, shelf = ''read'',
     genre = None, review = None, bookshelves = None, isbn = None, source = manual \<rparr>"

definition emma_manual :: book_fields where
  "emma_manual = \<lparr> title = ''Emma'', author = ''Jane Austen'', rating = 3, shelf = ''to-read'',
     genre = None, review = None, bookshelves = None, isbn = None, source = manual \<rparr>"

definition example_ops :: "unit store_op list" where
  "example_ops =
     [MergeAll (\<lambda>i. noon) [dune_manual, emma_manual, dune_manual], UpsertOne later emma_manual]"

section \<open>Properties of trim and of the identity key\<close>

lemma dropWhile_all: "list_all P l \<Longrightarrow> dropWhile P (l @ s) = dropWhile P s"
  by (induction l) simp_all

lemma trim16_padding:
  assumes l: "list_all isWhiteSpace16 l" and r: "list_all isWhiteSpace16 r"
  shows "trim16 (l @ s @ r) = trim16 s"
proof -
  have front: "dropWhile isWhiteSpace16 (l @ s @ r) = dropWhile isWhiteSpace16 (s @ r)"
    using l by (rule dropWhile_all)
  have r': "list_all isWhiteSpace16 (rev r)"
    using r by (simp add: list_all_iff)
  show ?thesis
  proof (cases "list_all isWhiteSpace16 s")
    case True
    then have "\<forall>c\<in>set (s @ r). isWhiteSpace16 c"
      using r by (auto simp: list_all_iff)
    then have a: "dropWhile isWhiteSpace16 (s @ r) = []"
      by (simp only: dropWhile_eq_Nil_conv)
    have "\<forall>c\<in>set s. isWhiteSpace16 c"
      using True by (simp add: list_all_iff)
    then have b: "dropWhile isWhiteSpace16 s = []"
      by (simp only: dropWhile_eq_Nil_conv)
    show ?thesis
      by (simp only: trim16_def front a b)
  next
    case False
    then obtain c where "c \<in> set s" "\<not> isWhiteSpace16 c"
      by (auto simp: list_all_iff)
    then have "dropWhile isWhiteSpace16 (s @ r) = dropWhile isWhiteSpace16 s @ r"
      by simp
    then have "rev (dropWhile isWhiteSpace16 (s @ r)) = rev r @ rev (dropWhile isWhiteSpace16 s)"
      by simp
    then have "dropWhile isWhiteSpace16 (rev (dropWhile isWhiteSpace16 (s @ r))) =
        dropWhile isWhiteSpace16 (rev (dropWhile isWhiteSpace16 s))"
      using dropWhile_all [OF r'] by simp
    then show ?thesis
      by (simp add: trim16_def front)
  qed
qed

lemma trim16_white:
  assumes "list_all isWhiteSpace16 s"
  shows "trim16 s = []"
proof -
  have "dropWhile isWhiteSpace16 s = []"
    using assms by (simp add: list_all_iff)
  then show ?thesis
    by (simp only: trim16_def rev.simps dropWhile.simps)
qed

lemma rev_split: "xs = rev (dropWhile P (rev xs)) @ rev (takeWhile P (rev xs))"
proof -
  have "takeWhile P (rev xs) @ dropWhile P (rev xs) = rev xs"
    by (rule takeWhile_dropWhile_id)
  then have "rev (takeWhile P (rev xs) @ dropWhile P (rev xs)) = rev (rev xs)"
    by (rule arg_cong)
  then show ?thesis
    by (simp only: rev_append rev_rev_ident)
qed

lemma trim16_clean:
  assumes "s \<noteq> []" and "\<not> isWhiteSpace16 (hd s)" and "\<not> isWhiteSpace16 (last s)"
  shows "trim16 s = s"
proof -
  from assms(1,2) have "dropWhile isWhiteSpace16 s = s"
    by (cases s) simp_all
  moreover from assms(1,3) have "dropWhile isWhiteSpace16 (rev s) = rev s"
    by (cases "rev s") (simp_all add: last_rev [symmetric] hd_rev)
  ultimately show ?thesis
    by (simp add: trim16_def)
qed

lemma trim16_split:
  "\<exists>l r. s = l @ trim16 s @ r \<and> list_all isWhiteSpace16 l \<and> list_all isWhiteSpace16 r"
proof -
  let ?rest = "dropWhile isWhiteSpace16 s"
  let ?l = "takeWhile isWhiteSpace16 s"
  let ?r = "rev (takeWhile isWhiteSpace16 (rev ?rest))"
  have rest: "?rest = trim16 s @ ?r"
    unfolding trim16_def by (rule rev_split)
  have "s = ?l @ ?rest"
    by simp
  with rest have "s = ?l @ trim16 s @ ?r"
    by simp
  moreover have "list_all isWhiteSpace16 ?l"
    by (auto simp: list_all_iff dest: set_takeWhileD)
  moreover have "list_all isWhiteSpace16 ?r"
    by (auto simp: list_all_iff dest: set_takeWhileD)
  ultimately show ?thesis
    by blast
qed

lemma trim16_ends:
  assumes "trim16 s \<noteq> []"
  shows "\<not> isWhiteSpace16 (hd (trim16 s)) \<and> \<not> isWhiteSpace16 (last (trim16 s))"
proof -
  let ?rest = "dropWhile isWhiteSpace16 s"
  let ?d = "dropWhile isWhiteSpace16 (rev ?rest)"
  have t: "trim16 s = rev ?d"
    by (simp add: trim16_def)
  with assms have d: "?d \<noteq> []"
    by simp
  then have "\<not> isWhiteSpace16 (hd ?d)"
    by (rule hd_dropWhile)
  then have last: "\<not> isWhiteSpace16 (last (trim16 s))"
    using d by (simp add: t last_rev)
  have rest: "?rest \<noteq> []"
  proof
    assume "?rest = []"
    then have "?d = []"
      by (simp only: rev.simps dropWhile.simps)
    with d show False
      by simp
  qed
  then have h: "\<not> isWhiteSpace16 (hd ?rest)"
    by (rule hd_dropWhile)
  have "?rest = trim16 s @ rev (takeWhile isWhiteSpace16 (rev ?rest))"
    unfolding trim16_def by (rule rev_split)
  then have "hd ?rest = hd (trim16 s)"
    using assms by (metis hd_append2)
  with h last show ?thesis
    by simp
qed

lemma trim16_lower:
  assumes "lower_keeps_white toLower"
  shows "trim16 (toLower s) = toLower (trim16 s)"
proof -
  from assms have nil: "toLower [] = []"
    and pad: "\<And>l s r. list_all isWhiteSpace16 l \<Longrightarrow> list_all isWhiteSpace16 r
        \<Longrightarrow> toLower (l @ s @ r) = l @ toLower s @ r"
    and ends_hd: "\<And>s. s \<noteq> [] \<Longrightarrow> \<not> isWhiteSpace16 (hd s)
        \<Longrightarrow> toLower s \<noteq> [] \<and> \<not> isWhiteSpace16 (hd (toLower s))"
    and ends_last: "\<And>s. s \<noteq> [] \<Longrightarrow> \<not> isWhiteSpace16 (last s)
        \<Longrightarrow> toLower s \<noteq> [] \<and> \<not> isWhiteSpace16 (last (toLower s))"
    by (simp_all add: lower_keeps_white_def)
  obtain l r where s: "s = l @ trim16 s @ r"
    and l: "list_all isWhiteSpace16 l" and r: "list_all isWhiteSpace16 r"
    using trim16_split by blast
  have "toLower s = toLower (l @ trim16 s @ r)"
    using s by simp
  also have "\<dots> = l @ toLower (trim16 s) @ r"
    using l r by (rule pad)
  finally have "trim16 (toLower s) = trim16 (l @ toLower (trim16 s) @ r)"
    by simp
  also have "\<dots> = trim16 (toLower (trim16 s))"
    using l r by (rule trim16_padding)
  also have "\<dots> = toLower (trim16 s)"
  proof (cases "trim16 s = []")
    case True
    have "trim16 [] = []"
      by (simp add: trim16_def)
    then show ?thesis
      by (simp only: True nil)
  next
    case False
    then have "\<not> isWhiteSpace16 (hd (trim16 s))" "\<not> isWhiteSpace16 (last (trim16 s))"
      using trim16_ends by blast+
    with False ends_hd ends_last
    have "toLower (trim16 s) \<noteq> []" "\<not> isWhiteSpace16 (hd (toLower (trim16 s)))"
      "\<not> isWhiteSpace16 (last (toLower (trim16 s)))"
      by blast+
    then show ?thesis
      by (rule trim16_clean)
  qed
  finally show ?thesis .
qed

lemma makeKey16_spec:
  "lower_keeps_white toLower \<Longrightarrow> makeKey16 toLower t a = identityKey_spec toLower t a"
  by (simp add: makeKey16_def identityKey_spec_def trim16_lower)

lemma makeKey16_padding:
  assumes "lower_keeps_white toLower"
    and "list_all isWhiteSpace16 l" and "list_all isWhiteSpace16 r"
    and "list_all isWhiteSpace16 l'" and "list_all isWhiteSpace16 r'"
  shows "makeKey16 toLower (l @ t @ r) (l' @ a @ r') = makeKey16 toLower t a"
proof -
  from assms(1) have pad: "\<And>l s r. list_all isWhiteSpace16 l \<Longrightarrow> list_all isWhiteSpace16 r
        \<Longrightarrow> toLower (l @ s @ r) = l @ toLower s @ r"
    by (simp add: lower_keeps_white_def)
  have "trim16 (toLower (l @ t @ r)) = trim16 (toLower t)"
    using assms(2,3) by (simp only: pad trim16_padding)
  moreover have "trim16 (toLower (l' @ a @ r')) = trim16 (toLower a)"
    using assms(4,5) by (simp only: pad trim16_padding)
  ultimately show ?thesis
    by (simp only: makeKey16_def)
qed

lemma makeKey16_upper_iff:
  "makeKey16 toLower u a = makeKey16 toLower t a \<longleftrightarrow> trim16 (toLower u) = trim16 (toLower t)"
  by (simp add: makeKey16_def)

lemma lower_upper_ascii:
  assumes "ascii_case toLower toUpper" and "list_all (\<lambda>u. u < 128) t"
  shows "toLower (toUpper t) = toLower t"
proof -
  from assms have up: "toUpper t = map upperAscii t" and lo: "toLower t = map lowerAscii t"
    by (simp_all add: ascii_case_def)
  have "list_all (\<lambda>u. u < 128) (map upperAscii t)"
    using assms(2) by (auto simp: list_all_iff upperAscii_def)
  with assms(1) have "toLower (map upperAscii t) = map lowerAscii (map upperAscii t)"
    by (simp add: ascii_case_def)
  also have "\<dots> = map lowerAscii t"
    by (auto simp: lowerAscii_def upperAscii_def)
  finally show ?thesis
    by (simp add: up lo)
qed

lemma isWhiteSpace16_of_char: "isWhiteSpace16 (of_char c) = isWhiteSpace c"
proof -
  have "isWhiteSpace16 n = (n \<in> {9, 10, 11, 12, 13, 32, 160})" if "n < 256" for n
    using that by (auto simp: isWhiteSpace16_def)
  from this [of "of_char c"] show ?thesis
    by (simp add: isWhiteSpace_def)
qed

lemma units_trim: "units (trim s) = trim16 (units s)"
proof -
  have dw: "map of_char (dropWhile isWhiteSpace x) = dropWhile isWhiteSpace16 (map of_char x)" for x
    by (induction x) (simp_all add: isWhiteSpace16_of_char)
  show ?thesis
    by (simp add: units_def trim_def trim16_def dw rev_map [symmetric])
qed

lemma makeKey16_units:
  assumes "latin1_lower toLower"
  shows "makeKey16 toLower (units t) (units a) = units (makeKey t a)"
proof -
  from assms have "toLower (units t) = units (toLowerCase t)" "toLower (units a) = units (toLowerCase a)"
    by (simp_all add: latin1_lower_def)
  then have "makeKey16 toLower (units t) (units a)
      = trim16 (units (toLowerCase t)) @ units ''::'' @ trim16 (units (toLowerCase a))"
    by (simp only: makeKey16_def)
  also have "\<dots> = units (trim (toLowerCase t)) @ units ''::'' @ units (trim (toLowerCase a))"
    by (simp only: units_trim)
  also have "\<dots> = units (makeKey t a)"
    by (simp add: makeKey_def units_def)
  finally show ?thesis .
qed

section \<open>Properties of the written-out rows\<close>

lemma lowerRow_white: "isWhiteSpace16 u \<Longrightarrow> lowerRow u = [u]"
  by (auto simp: isWhiteSpace16_def lowerRow_def)

lemma lowerRow_not_white: "\<not> isWhiteSpace16 u \<Longrightarrow> \<exists>v. lowerRow u = [v] \<and> \<not> isWhiteSpace16 v"
  by (auto simp: isWhiteSpace16_def lowerRow_def)

lemma toLowerRows_white: "list_all isWhiteSpace16 l \<Longrightarrow> toLowerRows l = l"
  by (induction l) (simp_all add: toLowerRows_def lowerRow_white)

lemma toLowerRows_append: "toLowerRows (x @ y) = toLowerRows x @ toLowerRows y"
  by (simp add: toLowerRows_def)

lemma rows_keep_white: "lower_keeps_white toLowerRows"
proof -
  have hd: "toLowerRows s \<noteq> [] \<and> \<not> isWhiteSpace16 (hd (toLowerRows s))"
    if "s \<noteq> []" "\<not> isWhiteSpace16 (hd s)" for s
  proof -
    from that obtain u s' where s: "s = u # s'" and u: "\<not> isWhiteSpace16 u"
      by (cases s) auto
    from u obtain v where "lowerRow u = [v]" "\<not> isWhiteSpace16 v"
      using lowerRow_not_white by blast
    then show ?thesis
      by (simp add: s toLowerRows_def)
  qed
  have last: "toLowerRows s \<noteq> [] \<and> \<not> isWhiteSpace16 (last (toLowerRows s))"
    if "s \<noteq> []" "\<not> isWhiteSpace16 (last s)" for s
  proof -
    from that obtain u s' where s: "s = s' @ [u]" and u: "\<not> isWhiteSpace16 u"
      by (cases s rule: rev_cases) auto
    from u obtain v where "lowerRow u = [v]" "\<not> isWhiteSpace16 v"
      using lowerRow_not_white by blast
    then show ?thesis
      by (simp add: s toLowerRows_def)
  qed
  have pad: "toLowerRows (l @ s @ r) = l @ toLowerRows s @ r"
    if "list_all isWhiteSpace16 l" "list_all isWhiteSpace16 r" for l s r
    using that by (simp add: toLowerRows_append toLowerRows_white)
  have nil: "toLowerRows [] = []"
    by (simp add: toLowerRows_def)
  show ?thesis
    unfolding lower_keeps_white_def using nil pad hd last by blast
qed

lemma rows_ascii_case: "ascii_case toLowerRows toUpperRows"
proof -
  have "toLowerRows s = map lowerAscii s \<and> toUpperRows s = map upperAscii s"
    if "list_all (\<lambda>u. u < 128) s" for s
    using that
    by (induction s)
      (auto simp: toLowerRows_def toUpperRows_def lowerRow_def upperRow_def lowerAscii_def
        upperAscii_def)
  then show ?thesis
    by (simp add: ascii_case_def)
qed

lemma rows_latin1_lower: "latin1_lower toLowerRows"
proof -
  have row: "lowerRow (of_char c) = [of_char (toLowerChar c)]" for c
  proof -
    have lt: "(of_char c :: nat) < 256"
      by simp
    show ?thesis
    proof (cases "isUpperCased c")
      case True
      then have "(of_char c :: nat) + 32 < 256"
        using lt by (auto simp: isUpperCased_def Let_def)
      then have "(of_char (char_of (of_char c + 32 :: nat)) :: nat) = of_char c + 32"
        by simp
      then show ?thesis
        using True by (auto simp: lowerRow_def toLowerChar_def isUpperCased_def Let_def)
    next
      case False
      then show ?thesis
        by (auto simp: lowerRow_def toLowerChar_def isUpperCased_def Let_def)
    qed
  qed
  have "toLowerRows (units s) = units (toLowerCase s)" for s
    by (induction s) (simp_all add: toLowerRows_def units_def toLowerCase_def row)
  then show ?thesis
    by (simp add: latin1_lower_def)
qed

section \<open>C4: the identity key\<close>

text \<open>
  C4. For all (title, author) string pairs, and every \<open>toLowerCase\<close> that leaves white space
  alone as the runtime's does, the identity key equals
  \<open>lowercase(trim(title)) + "::" + lowercase(trim(author))\<close> and is invariant to added
  leading and trailing white space on title or author. The claim that the key of the
  upper-cased title is the key of the title fails, for instance at sharp s, whose upper case
  \<open>SS\<close> lower-cases to \<open>ss\<close>, and at dotless i, whose upper case \<open>I\<close> lower-cases to \<open>i\<close>. The
  two keys are equal exactly when the lower-cased trimmed upper-cased title is the
  lower-cased trimmed title; that is so for every ASCII title. On the strings of the 8-bit
  model the key is the one the store computes.
\<close>

theorem makeKey_identity:
  "lower_keeps_white toLower \<longrightarrow>
     makeKey16 toLower t a = identityKey_spec toLower t a
     \<and> (list_all isWhiteSpace16 l \<and> list_all isWhiteSpace16 r
          \<and> list_all isWhiteSpace16 l' \<and> list_all isWhiteSpace16 r'
        \<longrightarrow> makeKey16 toLower (l @ t @ r) (l' @ a @ r') = makeKey16 toLower t a)
     \<and> (makeKey16 toLower (toUpper t) a = makeKey16 toLower t a
          \<longleftrightarrow> toLower (trim16 (toUpper t)) = toLower (trim16 t))
     \<and> (ascii_case toLower toUpper \<and> list_all (\<lambda>u. u < 128) t
        \<longrightarrow> makeKey16 toLower (toUpper t) a = makeKey16 toLower t a)
     \<and> (latin1_lower toLower
        \<longrightarrow> makeKey16 toLower (units t8) (units a8) = units (makeKey t8 a8))"
proof (rule impI)
  assume ok: "lower_keeps_white toLower"
  have spec: "makeKey16 toLower t a = identityKey_spec toLower t a"
    using ok by (rule makeKey16_spec)
  have pad: "list_all isWhiteSpace16 l \<and> list_all isWhiteSpace16 r
          \<and> list_all isWhiteSpace16 l' \<and> list_all isWhiteSpace16 r'
        \<longrightarrow> makeKey16 toLower (l @ t @ r) (l' @ a @ r') = makeKey16 toLower t a"
    using ok makeKey16_padding by blast
  have iff: "makeKey16 toLower (toUpper t) a = makeKey16 toLower t a
          \<longleftrightarrow> toLower (trim16 (toUpper t)) = toLower (trim16 t)"
    by (simp only: makeKey16_upper_iff trim16_lower [OF ok])
  have ascii: "ascii_case toLower toUpper \<and> list_all (\<lambda>u. u < 128) t
        \<longrightarrow> makeKey16 toLower (toUpper t) a = makeKey16 toLower t a"
  proof
    assume "ascii_case toLower toUpper \<and> list_all (\<lambda>u. u < 128) t"
    then have "toLower (toUpper t) = toLower t"
      using lower_upper_ascii by blast
    then show "makeKey16 toLower (toUpper t) a = makeKey16 toLower t a"
      by (simp only: makeKey16_def)
  qed
  have link: "latin1_lower toLower
        \<longrightarrow> makeKey16 toLower (units t8) (units a8) = units (makeKey t8 a8)"
    using makeKey16_units by blast
  from spec pad iff ascii link
  show "makeKey16 toLower t a = identityKey_spec toLower t a
     \<and> (list_all isWhiteSpace16 l \<and> list_all isWhiteSpace16 r
          \<and> list_all isWhiteSpace16 l' \<and> list_all isWhiteSpace16 r'
        \<longrightarrow> makeKey16 toLower (l @ t @ r) (l' @ a @ r') = makeKey16 toLower t a)
     \<and> (makeKey16 toLower (toUpper t) a = makeKey16 toLower t a
          \<longleftrightarrow> toLower (trim16 (toUpper t)) = toLower (trim16 t))
     \<and> (ascii_case toLower toUpper \<and> list_all (\<lambda>u. u < 128) t
        \<longrightarrow> makeKey16 toLower (toUpper t) a = makeKey16 toLower t a)
     \<and> (latin1_lower toLower
        \<longrightarrow> makeKey16 toLower (units t8) (units a8) = units (makeKey t8 a8))"
    by (intro conjI)
qed

lemma key_examples:
  "list_all isWhiteSpace16 (units '' '')"
  "list_all (\<lambda>u. u < 128) (units ''Dune'')"
  "units (makeKey ''Dune'' ''Frank Herbert'') = units ''dune::frank herbert''"
proof -
  show "list_all isWhiteSpace16 (units '' '')"
    by (simp add: units_def isWhiteSpace16_def)
  show "list_all (\<lambda>u. u < 128) (units ''Dune'')"
    by (simp add: units_def)
  have "makeKey ''Dune'' ''Frank Herbert'' = ''dune::frank herbert''"
    by code_simp
  then show "units (makeKey ''Dune'' ''Frank Herbert'') = units ''dune::frank herbert''"
    by (rule arg_cong)
qed

theorem makeKey_identity_witness:
  "lower_keeps_white toLowerRows \<and> ascii_case toLowerRows toUpperRows
   \<and> latin1_lower toLowerRows
   \<and> list_all isWhiteSpace16 (units '' '') \<and> list_all (\<lambda>u. u < 128) (units ''Dune'')
   \<and> makeKey16 toLowerRows (units ''Dune'') (units ''Frank Herbert'')
       = identityKey_spec toLowerRows (units ''Dune'') (units ''Frank Herbert'')
   \<and> makeKey16 toLowerRows (units '' '' @ units ''Dune'' @ units '' '')
         (units '' '' @ units ''Frank Herbert'' @ units '' '')
       = makeKey16 toLowerRows (units ''Dune'') (units ''Frank Herbert'')
   \<and> makeKey16 toLowerRows (toUpperRows (units ''Dune'')) (units ''Frank Herbert'')
       = makeKey16 toLowerRows (units ''Dune'') (units ''Frank Herbert'')
   \<and> makeKey16 toLowerRows (units ''Dune'') (units ''Frank Herbert'')
       = units (makeKey ''Dune'' ''Frank Herbert'')
   \<and> units (makeKey ''Dune'' ''Frank Herbert'') = units ''dune::frank herbert''"
proof -
  note h = rows_keep_white rows_ascii_case rows_latin1_lower key_examples
  from makeKey_identity [of toLowerRows "units ''Dune''" "units ''Frank Herbert''"
      "units '' ''" "units '' ''" "units '' ''" "units '' ''" toUpperRows "''Dune''"
      "''Frank Herbert''"]
  show ?thesis
    using h by blast
qed

theorem makeKey_upper_counterexample:
  "toUpperRows (units ''Spa'' @ [223]) = units ''SPASS''
   \<and> makeKey16 toLowerRows (toUpperRows (units ''Spa'' @ [223])) (units ''Ann'')
       = units ''spass::ann''
   \<and> makeKey16 toLowerRows (units ''Spa'' @ [223]) (units ''Ann'')
       = units ''spa'' @ [223] @ units ''::ann''
   \<and> makeKey16 toLowerRows (toUpperRows (units ''Spa'' @ [223])) (units ''Ann'')
       \<noteq> makeKey16 toLowerRows (units ''Spa'' @ [223]) (units ''Ann'')
   \<and> toUpperRows [305] = units ''I''
   \<and> makeKey16 toLowerRows (toUpperRows [305]) (units ''Ann'')
       \<noteq> makeKey16 toLowerRows [305] (units ''Ann'')"
  by (simp add: units_def makeKey16_def toLowerRows_def toUpperRows_def lowerRow_def upperRow_def
      trim16_def isWhiteSpace16_def)

section \<open>C7: what reading a slot gives\<close>

text \<open>
  C7. \<open>readStore\<close> and \<open>getShownBookIds\<close> themselves never throw, and give the empty array
  when the slot is missing, when its blob does not decode and when the storage throws. But
  a blob that decodes to a value that is not an array, such as \<open>null\<close>, is returned as it
  is, not as the empty array, and the caller's method call on it throws a \<open>TypeError\<close>:
  reading such a store fails from the caller's perspective.
\<close>

theorem read_outcomes:
  "(\<exists>v. readStore P G = Inr v) \<and> (\<exists>w. getShownBookIds Q G = Inr w)
   \<and> (G STORE_KEY = Inr None \<longrightarrow> readStore P G = Inr (JArray []))
   \<and> (G STORE_KEY = Inr (Some raw) \<and> P raw = Inl e \<longrightarrow> readStore P G = Inr (JArray []))
   \<and> (G STORE_KEY = Inl e \<longrightarrow> readStore P G = Inr (JArray []))
   \<and> (G SHOWN_KEY = Inr None \<longrightarrow> getShownBookIds Q G = Inr (JArray []))
   \<and> (G SHOWN_KEY = Inr (Some raw') \<and> Q raw' = Inl e \<longrightarrow> getShownBookIds Q G = Inr (JArray []))
   \<and> (G SHOWN_KEY = Inl e \<longrightarrow> getShownBookIds Q G = Inr (JArray []))
   \<and> (G STORE_KEY = Inr (Some raw) \<and> raw \<noteq> [] \<and> P raw = Inr JNull
        \<longrightarrow> readStore P G = Inr JNull \<and> getRatedBooks_call P G = Inl TypeError)
   \<and> (G SHOWN_KEY = Inr (Some raw') \<and> raw' \<noteq> [] \<and> Q raw' = Inr JNull
        \<longrightarrow> getShownBookIds Q G = Inr JNull)"
proof (intro conjI impI)
  show "\<exists>v. readStore P G = Inr v"
    by (simp add: readStore_def try_catch_def split: sum.split)
  show "\<exists>w. getShownBookIds Q G = Inr w"
    by (simp add: getShownBookIds_def try_catch_def split: sum.split)
next
  assume "G STORE_KEY = Inr None"
  then show "readStore P G = Inr (JArray [])"
    by (simp add: readStore_def try_catch_def read_slot_def)
next
  assume "G STORE_KEY = Inr (Some raw) \<and> P raw = Inl e"
  then show "readStore P G = Inr (JArray [])"
    by (simp add: readStore_def try_catch_def read_slot_def)
next
  assume "G STORE_KEY = Inl e"
  then show "readStore P G = Inr (JArray [])"
    by (simp add: readStore_def try_catch_def read_slot_def)
next
  assume "G SHOWN_KEY = Inr None"
  then show "getShownBookIds Q G = Inr (JArray [])"
    by (simp add: getShownBookIds_def try_catch_def read_slot_def)
next
  assume "G SHOWN_KEY = Inr (Some raw') \<and> Q raw' = Inl e"
  then show "getShownBookIds Q G = Inr (JArray [])"
    by (simp add: getShownBookIds_def try_catch_def read_slot_def)
next
  assume "G SHOWN_KEY = Inl e"
  then show "getShownBookIds Q G = Inr (JArray [])"
    by (simp add: getShownBookIds_def try_catch_def read_slot_def)
next
  assume a: "G STORE_KEY = Inr (Some raw) \<and> raw \<noteq> [] \<and> P raw = Inr JNull"
  then show "readStore P G = Inr JNull"
    by (simp add: readStore_def try_catch_def read_slot_def)
  then show "getRatedBooks_call P G = Inl TypeError"
    by (simp add: getRatedBooks_call_def call_filter_def)
next
  assume "G SHOWN_KEY = Inr (Some raw') \<and> raw' \<noteq> [] \<and> Q raw' = Inr JNull"
  then show "getShownBookIds Q G = Inr JNull"
    by (simp add: getShownBookIds_def try_catch_def read_slot_def)
qed

theorem read_outcomes_witness:
  "readStore (\<lambda>r. if r = ''null'' then Inr JNull else Inl SyntaxError :: exn + BookEntry json)
       (\<lambda>k. Inr (Some ''null'')) = Inr JNull
   \<and> getRatedBooks_call (\<lambda>r. if r = ''null'' then Inr JNull else Inl SyntaxError)
       (\<lambda>k. Inr (Some ''null'')) = Inl TypeError
   \<and> getShownBookIds (\<lambda>r. if r = ''null'' then Inr JNull else Inl SyntaxError :: exn + string json)
       (\<lambda>k. Inr (Some ''null'')) = Inr JNull
   \<and> readStore (\<lambda>r. if r = ''null'' then Inr JNull else Inl SyntaxError :: exn + BookEntry json)
       (\<lambda>k. Inr (Some ''[{oops'')) = Inr (JArray [])
   \<and> readStore (\<lambda>r. if r = ''null'' then Inr JNull else Inl SyntaxError :: exn + BookEntry json)
       (\<lambda>k. Inr None) = Inr (JArray [])
   \<and> getShownBookIds (\<lambda>r. if r = ''null'' then Inr JNull else Inl SyntaxError :: exn + string json)
       (\<lambda>k. Inl DOMException) = Inr (JArray [])"
  using
    read_outcomes [of "\<lambda>r. if r = ''null'' then Inr JNull else Inl SyntaxError :: exn + BookEntry json"
      "\<lambda>k. Inr (Some ''null'')"
      "\<lambda>r. if r = ''null'' then Inr JNull else Inl SyntaxError :: exn + string json"
      "''null''" SyntaxError "''null''"]
    read_outcomes [of "\<lambda>r. if r = ''null'' then Inr JNull else Inl SyntaxError :: exn + BookEntry json"
      "\<lambda>k. Inr (Some ''[{oops'')"
      "\<lambda>r. if r = ''null'' then Inr JNull else Inl SyntaxError :: exn + string json"
      "''[{oops''" SyntaxError "''[{oops''"]
    read_outcomes [of "\<lambda>r. if r = ''null'' then Inr JNull else Inl SyntaxError :: exn + BookEntry json"
      "\<lambda>k. Inr None"
      "\<lambda>r. if r = ''null'' then Inr JNull else Inl SyntaxError :: exn + string json"]
    read_outcomes [of "\<lambda>r. if r = ''null'' then Inr JNull else Inl SyntaxError :: exn + BookEntry json"
      "\<lambda>k. Inl DOMException"
      "\<lambda>r. if r = ''null'' then Inr JNull else Inl SyntaxError :: exn + string json"
      _ DOMException]
  by simp

section \<open>Properties of the containers\<close>

lemma set_Set_add: "set (Set_add x ys) = insert x (set ys)"
  by (induction ys) auto

lemma distinct_Set_add: "distinct ys \<Longrightarrow> distinct (Set_add x ys)"
  by (induction ys) (auto simp: set_Set_add)

lemma set_fold_Set_add: "set (foldl (\<lambda>acc x. Set_add x acc) acc xs) = set acc \<union> set xs"
  by (induction xs arbitrary: acc) (auto simp: set_Set_add)

lemma distinct_fold_Set_add:
  "distinct acc \<Longrightarrow> distinct (foldl (\<lambda>acc x. Set_add x acc) acc xs)"
  by (induction xs arbitrary: acc) (auto simp: distinct_Set_add)

lemma set_addShownBookIds: "set (addShownBookIds ids current) = set current \<union> set ids"
  by (simp add: addShownBookIds_def new_Set_def set_fold_Set_add)

lemma addShownBookIds_calls_grow:
  "set current \<subseteq> set (foldl (\<lambda>cur ids. addShownBookIds ids cur) current calls)"
proof (induction calls arbitrary: current)
  case Nil
  show ?case by simp
next
  case (Cons ids calls)
  have "set current \<subseteq> set (addShownBookIds ids current)"
    by (simp add: set_addShownBookIds)
  also have "\<dots> \<subseteq> set (foldl (\<lambda>cur ids. addShownBookIds ids cur) (addShownBookIds ids current) calls)"
    by (rule Cons.IH)
  finally show ?case by simp
qed

lemma addShownBookIds_calls_union:
  "set (foldl (\<lambda>cur ids. addShownBookIds ids cur) current calls) = set current \<union> \<Union> (set ` set calls)"
  by (induction calls arbitrary: current) (auto simp: set_addShownBookIds)

section \<open>C8: the shown set\<close>

text \<open>
  C8. \<open>addShownBookIds\<close> writes the union of the current shown set and its argument, without
  duplicates; so the members of the shown set only grow over any sequence of calls; and
  after \<open>["x","y"]\<close> and then \<open>["y","z"]\<close> on the cleared set the members are x, y, z.
\<close>

theorem addShown_union:
  "set (addShownBookIds ids current) = set current \<union> set ids
   \<and> distinct (addShownBookIds ids current)
   \<and> set current \<subseteq> set (foldl (\<lambda>cur ids. addShownBookIds ids cur) current calls)
   \<and> set (foldl (\<lambda>cur ids. addShownBookIds ids cur) current calls)
       = set current \<union> \<Union> (set ` set calls)
   \<and> addShownBookIds [''y'', ''z''] (addShownBookIds [''x'', ''y''] clearShownBookIds)
       = [''x'', ''y'', ''z'']"
proof (intro conjI)
  show "set (addShownBookIds ids current) = set current \<union> set ids"
    by (rule set_addShownBookIds)
  show "distinct (addShownBookIds ids current)"
    by (simp add: addShownBookIds_def new_Set_def distinct_fold_Set_add)
  show "set current \<subseteq> set (foldl (\<lambda>cur ids. addShownBookIds ids cur) current calls)"
    by (rule addShownBookIds_calls_grow)
  show "set (foldl (\<lambda>cur ids. addShownBookIds ids cur) current calls)
       = set current \<union> \<Union> (set ` set calls)"
    by (rule addShownBookIds_calls_union)
  show "addShownBookIds [''y'', ''z''] (addShownBookIds [''x'', ''y''] clearShownBookIds)
       = [''x'', ''y'', ''z'']"
    by (simp add: addShownBookIds_def new_Set_def clearShownBookIds_def)
qed

theorem addShown_union_witness:
  "set (addShownBookIds [''y'', ''z''] [''x'', ''y'']) = {''x'', ''y'', ''z''}
   \<and> distinct (addShownBookIds [''y'', ''z''] [''x'', ''y''])"
  using addShown_union [of "[''y'', ''z'']" "[''x'', ''y'']" "[]"]
  by auto

section \<open>C9: the rated books\<close>

text \<open>
  C9. \<open>getRatedBooks\<close> returns exactly the stored records with \<open>rating >= 1\<close>, in their
  order: a record is returned if and only if it is stored with such a rating, whatever its
  shelf (rewriting the shelves of the stored records rewrites the shelves of the result and
  nothing else); and the result is empty when no stored record has \<open>rating >= 1\<close>.
\<close>

theorem getRated_exact:
  "getRatedBooks store = filter (\<lambda>e. rating e \<ge> 1) store
   \<and> (e \<in> set (getRatedBooks store) \<longleftrightarrow> e \<in> set store \<and> rating e \<ge> 1)
   \<and> getRatedBooks (map (\<lambda>e. e\<lparr>shelf := f e\<rparr>) store)
       = map (\<lambda>e. e\<lparr>shelf := f e\<rparr>) (getRatedBooks store)
   \<and> ((\<forall>e\<in>set store. rating e < 1) \<longrightarrow> getRatedBooks store = [])"
proof (intro conjI impI)
  show "getRatedBooks store = filter (\<lambda>e. rating e \<ge> 1) store"
    by (simp add: getRatedBooks_def)
  show "e \<in> set (getRatedBooks store) \<longleftrightarrow> e \<in> set store \<and> rating e \<ge> 1"
    by (simp add: getRatedBooks_def)
  show "getRatedBooks (map (\<lambda>e. e\<lparr>shelf := f e\<rparr>) store)
       = map (\<lambda>e. e\<lparr>shelf := f e\<rparr>) (getRatedBooks store)"
    by (simp add: getRatedBooks_def filter_map comp_def)
next
  assume "\<forall>e\<in>set store. rating e < 1"
  then show "getRatedBooks store = []"
    by (auto simp: getRatedBooks_def filter_empty_conv)
qed

theorem getRated_exact_witness:
  "list_all (\<lambda>e. rating e < 1)
     [\<lparr>title = ''Dune'', author = ''Frank Herbert'', rating = 0, shelf = ''read'', genre = None,
       review = None, bookshelves = None, isbn = None, source = goodreads,
       book_key = ''dune::frank herbert'', date_updated = ''2024-05-01T10:00:00.000Z''\<rparr>]
   \<and> getRatedBooks
     [\<lparr>title = ''Dune'', author = ''Frank Herbert'', rating = 0, shelf = ''read'', genre = None,
       review = None, bookshelves = None, isbn = None, source = goodreads,
       book_key = ''dune::frank herbert'', date_updated = ''2024-05-01T10:00:00.000Z''\<rparr>] = []"
  using getRated_exact [of
     "[\<lparr>title = ''Dune'', author = ''Frank Herbert'', rating = 0, shelf = ''read'', genre = None,
       review = None, bookshelves = None, isbn = None, source = goodreads,
       book_key = ''dune::frank herbert'', date_updated = ''2024-05-01T10:00:00.000Z''\<rparr>]"]
  by simp

section \<open>Properties of the import adapter\<close>

lemma title_row_to_book: "title_nonblank row \<Longrightarrow> title (row_to_book now row) \<noteq> []"
  by (auto simp: title_nonblank_def row_to_book_def or_else_def Let_def split: option.splits)

lemma key_row_to_book:
  "book_key (row_to_book now row) = makeKey (title (row_to_book now row)) (author (row_to_book now row))"
  by (simp add: row_to_book_def Let_def)

lemma date_row_to_book: "date_updated (row_to_book now row) = now"
  by (simp add: row_to_book_def Let_def)

lemma parse_complete_ok:
  assumes "rows \<noteq> []" and "\<forall>col\<in>set required. hd rows col \<noteq> None"
  shows "parseGoodreadsCSV clock (Papa_complete rows)
    = Inr (map (\<lambda>(i, row). row_to_book (clock i) row) (enumerate 0 (filter title_nonblank rows)))"
proof -
  have "filter (\<lambda>col. hd rows col = None) required = []"
    using assms(2) by (simp add: filter_empty_conv)
  then show ?thesis
    using assms(1) by (simp add: parseGoodreadsCSV_def Let_def)
qed

lemma parse_complete_Inr:
  assumes "parseGoodreadsCSV clock (Papa_complete rows) = Inr books"
  shows "books = map (\<lambda>(i, row). row_to_book (clock i) row) (enumerate 0 (filter title_nonblank rows))"
  using assms by (simp add: parseGoodreadsCSV_def Let_def split: if_splits)

lemma parse_Inr_complete:
  assumes "parseGoodreadsCSV clock outcome = Inr books"
  shows "\<exists>rows. outcome = Papa_complete rows"
  using assms by (cases outcome) (simp_all add: parseGoodreadsCSV_def)

lemma stamp_truncate: "stamp (book_fields.truncate b) k n = stamp b k n"
  by (simp add: stamp_def book_fields.defs)

lemma merge_loop_truncate:
  "merge_loop clock i (map book_fields.truncate bs) m u = merge_loop clock i bs m u"
proof (induction bs arbitrary: i m u)
  case Nil
  show ?case by simp
next
  case (Cons b bs)
  have "title (book_fields.truncate b) = title b" "author (book_fields.truncate b) = author b"
    by (simp_all add: book_fields.defs)
  then show ?case
    using Cons.IH by (simp add: stamp_truncate Let_def)
qed

lemma parse_complete_books:
  assumes ok: "parseGoodreadsCSV clock (Papa_complete rows) = Inr books"
  shows "length books = length (filter title_nonblank rows)
      \<and> (\<forall>i<length books. books ! i = row_to_book (clock i) (filter title_nonblank rows ! i))
      \<and> (\<forall>b\<in>set books. title b \<noteq> [])"
proof -
  let ?kept = "filter title_nonblank rows"
  have books: "books = map (\<lambda>(i, row). row_to_book (clock i) row) (enumerate 0 ?kept)"
    using ok by (rule parse_complete_Inr)
  then have len: "length books = length ?kept"
    by simp
  have nth: "\<forall>i<length books. books ! i = row_to_book (clock i) (?kept ! i)"
    using len by (simp add: books nth_enumerate_eq)
  have "\<forall>b\<in>set books. title b \<noteq> []"
  proof
    fix b
    assume "b \<in> set books"
    then obtain i where i: "i < length books" and b: "b = books ! i"
      by (auto simp: in_set_conv_nth)
    then have "i < length ?kept"
      using len by simp
    then have "?kept ! i \<in> set ?kept"
      by (rule nth_mem)
    then have "title_nonblank (?kept ! i)"
      by simp
    then show "title b \<noteq> []"
      using nth i b by (simp add: title_row_to_book)
  qed
  with len nth show ?thesis
    by blast
qed

section \<open>C5: outcomes of the import\<close>

text \<open>
  C5. For every parsed table, the import fails with \<open>EmptyInput\<close> exactly when the table
  has no row; it fails with \<open>SchemaMismatch\<close> exactly when the table has a row and one of
  the required columns Title, Author, My Rating, Exclusive Shelf is absent from the first
  row, and the error names exactly the absent ones; otherwise it succeeds, and its records
  are, in order, those of the rows whose title is not blank.
\<close>

theorem import_outcomes:
  "(parseGoodreadsCSV clock (Papa_complete rows) = Inl EmptyInput \<longleftrightarrow> rows = [])
   \<and> ((\<exists>m. parseGoodreadsCSV clock (Papa_complete rows) = Inl (SchemaMismatch m))
        \<longleftrightarrow> rows \<noteq> [] \<and> (\<exists>col\<in>set required. hd rows col = None))
   \<and> (parseGoodreadsCSV clock (Papa_complete rows) = Inl (SchemaMismatch m)
        \<longrightarrow> m = filter (\<lambda>col. hd rows col = None) required)
   \<and> (rows \<noteq> [] \<and> (\<forall>col\<in>set required. hd rows col \<noteq> None)
        \<longrightarrow> (\<exists>books. parseGoodreadsCSV clock (Papa_complete rows) = Inr books))
   \<and> (parseGoodreadsCSV clock (Papa_complete rows) = Inr books
        \<longrightarrow> length books = length (filter title_nonblank rows)
          \<and> (\<forall>i<length books. books ! i = row_to_book (clock i) (filter title_nonblank rows ! i))
          \<and> (\<forall>b\<in>set books. title b \<noteq> []))
   \<and> (title_nonblank row \<longleftrightarrow> (\<exists>t. row ''Title'' = Some t \<and> trim t \<noteq> []))
   \<and> set required = {''Title'', ''Author'', ''My Rating'', ''Exclusive Shelf''}"
proof (intro conjI)
  show "parseGoodreadsCSV clock (Papa_complete rows) = Inl EmptyInput \<longleftrightarrow> rows = []"
    by (simp add: parseGoodreadsCSV_def Let_def)
  show "(\<exists>m. parseGoodreadsCSV clock (Papa_complete rows) = Inl (SchemaMismatch m))
        \<longleftrightarrow> rows \<noteq> [] \<and> (\<exists>col\<in>set required. hd rows col = None)"
    by (auto simp: parseGoodreadsCSV_def Let_def filter_empty_conv)
  show "title_nonblank row \<longleftrightarrow> (\<exists>t. row ''Title'' = Some t \<and> trim t \<noteq> [])"
    by (simp add: title_nonblank_def split: option.split)
  show "set required = {''Title'', ''Author'', ''My Rating'', ''Exclusive Shelf''}"
    by (simp add: required_def)
  show "parseGoodreadsCSV clock (Papa_complete rows) = Inl (SchemaMismatch m)
        \<longrightarrow> m = filter (\<lambda>col. hd rows col = None) required"
    by (simp add: parseGoodreadsCSV_def Let_def split: if_splits)
  show "rows \<noteq> [] \<and> (\<forall>col\<in>set required. hd rows col \<noteq> None)
        \<longrightarrow> (\<exists>books. parseGoodreadsCSV clock (Papa_complete rows) = Inr books)"
    by (simp add: parse_complete_ok)
  show "parseGoodreadsCSV clock (Papa_complete rows) = Inr books
        \<longrightarrow> length books = length (filter title_nonblank rows)
          \<and> (\<forall>i<length books. books ! i = row_to_book (clock i) (filter title_nonblank rows ! i))
          \<and> (\<forall>b\<in>set books. title b \<noteq> [])"
    using parse_complete_books by blast
qed

lemma import_examples:
  "parseGoodreadsCSV (\<lambda>i. noon) (Papa_complete [dune_row, blank_row, dune_row])
     = Inr [dune_entry, dune_entry]"
  "parseGoodreadsCSV (\<lambda>i. noon) (Papa_complete [no_author_row, dune_row])
     = Inl (SchemaMismatch [''Author''])"
  "map title_nonblank [dune_row, blank_row, dune_row] = [True, False, True]"
  "list_all (\<lambda>col. hd [dune_row, blank_row, dune_row] col \<noteq> None) required"
  by code_simp+

theorem import_outcomes_witness:
  "[dune_row, blank_row, dune_row] \<noteq> []
   \<and> list_all (\<lambda>col. hd [dune_row, blank_row, dune_row] col \<noteq> None) required
   \<and> parseGoodreadsCSV (\<lambda>i. noon) (Papa_complete [dune_row, blank_row, dune_row])
       = Inr [dune_entry, dune_entry]
   \<and> length [dune_entry, dune_entry] = length (filter title_nonblank [dune_row, blank_row, dune_row])
   \<and> parseGoodreadsCSV (\<lambda>i. noon) (Papa_complete [no_author_row, dune_row])
       = Inl (SchemaMismatch [''Author''])
   \<and> [''Author''] = filter (\<lambda>col. hd [no_author_row, dune_row] col = None) required"
  using import_examples
    import_outcomes [of "\<lambda>i. noon" "[dune_row, blank_row, dune_row]" _ "[dune_entry, dune_entry]"]
    import_outcomes [of "\<lambda>i. noon" "[no_author_row, dune_row]" "[''Author'']"]
  by simp

section \<open>C6: what the import puts in the key and the date\<close>

text \<open>
  C6. The claim that the records of the import have no identity key and no date fails: the
  adapter computes both. For every successful import, each record carries the key derived
  from its own title and author and the clock reading of the import; the store assigns
  both again at merge time, whatever the adapter put there: merging the adapter's records
  gives what merging them without the two fields gives.
\<close>

theorem import_sets_key_and_date:
  "parseGoodreadsCSV clock outcome = Inr books \<longrightarrow>
     (\<forall>i<length books.
        book_key (books ! i) = makeKey (title (books ! i)) (author (books ! i))
        \<and> date_updated (books ! i) = clock i)
     \<and> mergeBooks clock' books store = mergeBooks clock' (map book_fields.truncate books) store"
proof (intro impI conjI)
  assume ok: "parseGoodreadsCSV clock outcome = Inr books"
  then obtain rows where "outcome = Papa_complete rows"
    using parse_Inr_complete by blast
  with ok have books:
    "books = map (\<lambda>(i, row). row_to_book (clock i) row) (enumerate 0 (filter title_nonblank rows))"
    by (simp add: parse_complete_Inr)
  show "\<forall>i<length books.
        book_key (books ! i) = makeKey (title (books ! i)) (author (books ! i))
        \<and> date_updated (books ! i) = clock i"
  proof (intro allI impI)
    fix i
    assume "i < length books"
    then have "books ! i = row_to_book (clock i) (filter title_nonblank rows ! i)"
      by (simp add: books nth_enumerate_eq)
    then show "book_key (books ! i) = makeKey (title (books ! i)) (author (books ! i))
        \<and> date_updated (books ! i) = clock i"
      by (simp add: key_row_to_book date_row_to_book)
  qed
  show "mergeBooks clock' books store = mergeBooks clock' (map book_fields.truncate books) store"
    by (simp add: mergeBooks_def merge_loop_truncate)
qed

theorem import_sets_key_and_date_witness:
  "parseGoodreadsCSV (\<lambda>i. noon) (Papa_complete [dune_row]) = Inr [dune_entry]
   \<and> book_key dune_entry = makeKey (title dune_entry) (author dune_entry)
   \<and> date_updated dune_entry = noon
   \<and> mergeBooks (\<lambda>i. later) [dune_entry] []
       = mergeBooks (\<lambda>i. later) (map book_fields.truncate [dune_entry]) []"
proof -
  have ok: "parseGoodreadsCSV (\<lambda>i. noon) (Papa_complete [dune_row]) = Inr [dune_entry]"
    by code_simp
  from import_sets_key_and_date [of "\<lambda>i. noon" "Papa_complete [dune_row]" "[dune_entry]"
      "\<lambda>i. later" "[]"] ok
  show ?thesis
    by simp
qed

theorem import_unkeyed_counterexample:
  "parseGoodreadsCSV (\<lambda>i. noon) (Papa_complete [dune_row])
     = Inr [\<lparr> title = ''Dune'', author = ''Frank Herbert'', rating = 5, shelf = ''read'',
            genre = None, review = None, bookshelves = None, isbn = None, source = goodreads,
            book_key = ''dune::frank herbert'', date_updated = ''2024-05-01T12:00:00.000Z'' \<rparr>]"
  by code_simp

section \<open>Properties of Map and findIndex\<close>

lemma set_Map_set_subset: "set (Map_set k v m) \<subseteq> insert (k, v) (set m)"
  by (induction m) (auto split: if_splits)

lemma Map_set_mem: "(k, v) \<in> set (Map_set k v m)"
  by (induction m) auto

lemma Map_set_other: "k' \<noteq> k \<Longrightarrow> (k', e) \<in> set m \<Longrightarrow> (k', e) \<in> set (Map_set k v m)"
  by (induction m) auto

lemma keys_Map_set: "fst ` set (Map_set k v m) = insert k (fst ` set m)"
proof (induction m)
  case Nil
  show ?case by simp
next
  case (Cons p m)
  obtain k' v' where p: "p = (k', v')"
    by (cases p)
  show ?case
  proof (cases "k' = k")
    case True
    then show ?thesis by (simp add: p)
  next
    case False
    then show ?thesis
      using Cons.IH by (simp add: p insert_commute)
  qed
qed

lemma distinct_Map_set: "distinct (map fst m) \<Longrightarrow> distinct (map fst (Map_set k v m))"
  by (induction m) (auto simp: keys_Map_set)

lemma length_Map_set:
  "length (Map_set k v m) = (if k \<in> fst ` set m then length m else Suc (length m))"
proof (induction m)
  case Nil
  show ?case by simp
next
  case (Cons p m)
  obtain k' v' where p: "p = (k', v')"
    by (cases p)
  show ?case
  proof (cases "k' = k")
    case True
    then show ?thesis by (simp add: p)
  next
    case False
    then show ?thesis
      using Cons.IH by (simp add: p)
  qed
qed

lemma Map_set_fresh: "k \<notin> fst ` set m \<Longrightarrow> Map_set k v m = m @ [(k, v)]"
  by (induction m) auto

lemma Map_get_None: "Map_get k m = None \<longleftrightarrow> k \<notin> fst ` set m"
  by (simp add: Map_get_def map_of_eq_None_iff)
lemma fold_Map_set_distinct:
  "distinct (map fst (acc @ ps)) \<Longrightarrow> foldl (\<lambda>m (k, v). Map_set k v m) acc ps = acc @ ps"
proof (induction ps arbitrary: acc)
  case Nil
  show ?case by simp
next
  case (Cons p ps)
  obtain k v where p: "p = (k, v)"
    by (cases p)
  from Cons.prems have fresh: "k \<notin> fst ` set acc"
    by (auto simp: p)
  from Cons.prems have "distinct (map fst ((acc @ [(k, v)]) @ ps))"
    by (simp add: p)
  then have "foldl (\<lambda>m (k, v). Map_set k v m) (acc @ [(k, v)]) ps = (acc @ [(k, v)]) @ ps"
    by (rule Cons.IH)
  then show ?case
    using fresh by (simp add: p Map_set_fresh)
qed

lemma new_Map_distinct: "distinct (map fst ps) \<Longrightarrow> new_Map ps = ps"
  using fold_Map_set_distinct [of "[]" ps] by (simp add: new_Map_def)

lemma fold_Map_set_keys:
  "fst ` set (foldl (\<lambda>m (k, v). Map_set k v m) acc ps) = fst ` set acc \<union> fst ` set ps"
proof (induction ps arbitrary: acc)
  case Nil
  show ?case by simp
next
  case (Cons p ps)
  obtain k v where p: "p = (k, v)"
    by (cases p)
  have "fst ` set (foldl (\<lambda>m (k, v). Map_set k v m) (Map_set k v acc) ps)
      = fst ` set (Map_set k v acc) \<union> fst ` set ps"
    by (rule Cons.IH)
  then show ?case
    by (simp add: p keys_Map_set)
qed

lemma fold_Map_set_distinct_keys:
  "distinct (map fst acc) \<Longrightarrow> distinct (map fst (foldl (\<lambda>m (k, v). Map_set k v m) acc ps))"
proof (induction ps arbitrary: acc)
  case Nil
  then show ?case by simp
next
  case (Cons p ps)
  obtain k v where p: "p = (k, v)"
    by (cases p)
  from Cons.prems have "distinct (map fst (Map_set k v acc))"
    by (rule distinct_Map_set)
  then have "distinct (map fst (foldl (\<lambda>m (k, v). Map_set k v m) (Map_set k v acc) ps))"
    by (rule Cons.IH)
  then show ?case
    by (simp add: p)
qed

lemma fold_Map_set_subset:
  "set (foldl (\<lambda>m (k, v). Map_set k v m) acc ps) \<subseteq> set acc \<union> set ps"
proof (induction ps arbitrary: acc)
  case Nil
  show ?case by simp
next
  case (Cons p ps)
  obtain k v where p: "p = (k, v)"
    by (cases p)
  have "set (foldl (\<lambda>m (k, v). Map_set k v m) (Map_set k v acc) ps)
      \<subseteq> set (Map_set k v acc) \<union> set ps"
    by (rule Cons.IH)
  also have "\<dots> \<subseteq> insert (k, v) (set acc) \<union> set ps"
    using set_Map_set_subset [of k v acc] by auto
  finally show ?case
    by (auto simp: p)
qed

lemma new_Map_keys: "fst ` set (new_Map ps) = fst ` set ps"
  by (simp add: new_Map_def fold_Map_set_keys)

lemma new_Map_distinct_keys: "distinct (map fst (new_Map ps))"
  by (simp add: new_Map_def fold_Map_set_distinct_keys)

lemma new_Map_subset: "set (new_Map ps) \<subseteq> set ps"
  using fold_Map_set_subset [of "[]" ps] by (simp add: new_Map_def)

lemma findIndex_None: "findIndex P xs = None \<longleftrightarrow> (\<forall>x\<in>set xs. \<not> P x)"
  by (induction xs) auto

lemma findIndex_Some:
  "findIndex P xs = Some i \<Longrightarrow> i < length xs \<and> P (xs ! i) \<and> (\<forall>j<i. \<not> P (xs ! j))"
proof (induction xs arbitrary: i)
  case Nil
  then show ?case by simp
next
  case (Cons x xs)
  show ?case
  proof (cases "P x")
    case True
    with Cons.prems show ?thesis by simp
  next
    case False
    with Cons.prems obtain i' where i': "findIndex P xs = Some i'" and i: "i = Suc i'"
      by auto
    from Cons.IH [OF i'] have "i' < length xs" "P (xs ! i')" "\<forall>j<i'. \<not> P (xs ! j)"
      by simp_all
    then show ?thesis
      using False by (auto simp: i less_Suc_eq_0_disj)
  qed
qed


section \<open>Properties of the merge loop\<close>

lemma key_of_stamp: "book_key (stamp b k n) = k"
  by (simp add: stamp_def book_fields.defs)

lemma wf_stamp: "key_of (stamp b (key_of b) n) = key_of b"
  by (simp add: stamp_def key_of_def book_fields.defs)

lemma merge_loop_Cons:
  "merge_loop clock i (b # bs) m u =
     merge_loop clock (Suc i) bs (Map_set (key_of b) (stamp b (key_of b) (clock i)) m)
       (if key_of b \<in> fst ` set m then Suc u else u)"
proof -
  have "Map_get (key_of b) m \<noteq> None \<longleftrightarrow> key_of b \<in> fst ` set m"
    by (simp add: Map_get_None)
  then show ?thesis
    by (simp add: Let_def key_of_def)
qed

lemma merge_loop_keys:
  "fst ` set (fst (merge_loop clock i bs m u)) = fst ` set m \<union> key_of ` set bs"
proof (induction bs arbitrary: i m u)
  case Nil
  show ?case by simp
next
  case (Cons b bs)
  show ?case
    by (simp only: merge_loop_Cons Cons.IH keys_Map_set) auto
qed

lemma merge_loop_distinct:
  "distinct (map fst m) \<Longrightarrow> distinct (map fst (fst (merge_loop clock i bs m u)))"
proof (induction bs arbitrary: i m u)
  case Nil
  then show ?case by simp
next
  case (Cons b bs)
  from Cons.prems have "distinct (map fst (Map_set (key_of b) (stamp b (key_of b) (clock i)) m))"
    by (rule distinct_Map_set)
  then show ?case
    by (simp only: merge_loop_Cons Cons.IH)
qed

lemma merge_loop_subset:
  "set (fst (merge_loop clock i bs m u))
     \<subseteq> set m \<union> {(key_of b, stamp b (key_of b) t) | b t. b \<in> set bs}"
proof (induction bs arbitrary: i m u)
  case Nil
  show ?case by simp
next
  case (Cons b bs)
  let ?m1 = "Map_set (key_of b) (stamp b (key_of b) (clock i)) m"
  let ?u1 = "if key_of b \<in> fst ` set m then Suc u else u"
  have "set (fst (merge_loop clock (Suc i) bs ?m1 ?u1))
      \<subseteq> set ?m1 \<union> {(key_of b, stamp b (key_of b) t) | b t. b \<in> set bs}"
    by (rule Cons.IH)
  moreover have "set ?m1 \<subseteq> insert (key_of b, stamp b (key_of b) (clock i)) (set m)"
    by (rule set_Map_set_subset)
  ultimately have "set (fst (merge_loop clock (Suc i) bs ?m1 ?u1))
      \<subseteq> set m \<union> {(key_of b', stamp b' (key_of b') t) | b' t. b' \<in> set (b # bs)}"
    by fastforce
  then show ?case
    by (simp only: merge_loop_Cons)
qed

lemma merge_loop_frame:
  "(k, e) \<in> set m \<Longrightarrow> k \<notin> key_of ` set bs \<Longrightarrow> (k, e) \<in> set (fst (merge_loop clock i bs m u))"
proof (induction bs arbitrary: i m u)
  case Nil
  then show ?case by simp
next
  case (Cons b bs)
  let ?m1 = "Map_set (key_of b) (stamp b (key_of b) (clock i)) m"
  let ?u1 = "if key_of b \<in> fst ` set m then Suc u else u"
  from Cons.prems have ne: "k \<noteq> key_of b" and rest: "k \<notin> key_of ` set bs"
    by auto
  from ne Cons.prems(1) have "(k, e) \<in> set ?m1"
    by (rule Map_set_other)
  then have "(k, e) \<in> set (fst (merge_loop clock (Suc i) bs ?m1 ?u1))"
    using rest by (rule Cons.IH)
  then show ?case
    by (simp only: merge_loop_Cons)
qed

lemma merge_loop_last:
  "j < length bs \<Longrightarrow> \<forall>j'<length bs. j < j' \<longrightarrow> key_of (bs ! j') \<noteq> key_of (bs ! j) \<Longrightarrow>
     (key_of (bs ! j), stamp (bs ! j) (key_of (bs ! j)) (clock (i + j)))
       \<in> set (fst (merge_loop clock i bs m u))"
proof (induction bs arbitrary: i j m u)
  case Nil
  then show ?case by simp
next
  case (Cons b bs)
  let ?m1 = "Map_set (key_of b) (stamp b (key_of b) (clock i)) m"
  let ?u1 = "if key_of b \<in> fst ` set m then Suc u else u"
  show ?case
  proof (cases j)
    case 0
    have "key_of b \<notin> key_of ` set bs"
    proof
      assume "key_of b \<in> key_of ` set bs"
      then obtain n where n: "n < length bs" "key_of (bs ! n) = key_of b"
        by (auto simp: in_set_conv_nth)
      then have "Suc n < length (b # bs)" "j < Suc n"
        by (simp_all add: 0)
      then have "key_of ((b # bs) ! Suc n) \<noteq> key_of ((b # bs) ! j)"
        using Cons.prems(2) by blast
      then show False
        using n by (simp add: 0)
    qed
    moreover have "(key_of b, stamp b (key_of b) (clock i)) \<in> set ?m1"
      by (rule Map_set_mem)
    ultimately have "(key_of b, stamp b (key_of b) (clock i))
        \<in> set (fst (merge_loop clock (Suc i) bs ?m1 ?u1))"
      by (simp add: merge_loop_frame)
    then show ?thesis
      by (simp only: merge_loop_Cons) (simp add: 0)
  next
    case (Suc j0)
    from Cons.prems(1) have j0: "j0 < length bs"
      by (simp add: Suc)
    have "\<forall>j'<length bs. j0 < j' \<longrightarrow> key_of (bs ! j') \<noteq> key_of (bs ! j0)"
    proof (intro allI impI)
      fix j'
      assume "j' < length bs" "j0 < j'"
      then have "Suc j' < length (b # bs)" "j < Suc j'"
        by (simp_all add: Suc)
      then have "key_of ((b # bs) ! Suc j') \<noteq> key_of ((b # bs) ! j)"
        using Cons.prems(2) by blast
      then show "key_of (bs ! j') \<noteq> key_of (bs ! j0)"
        by (simp add: Suc)
    qed
    with j0 have "(key_of (bs ! j0), stamp (bs ! j0) (key_of (bs ! j0)) (clock (Suc i + j0)))
        \<in> set (fst (merge_loop clock (Suc i) bs ?m1 ?u1))"
      by (rule Cons.IH)
    then show ?thesis
      by (simp only: merge_loop_Cons) (simp add: Suc)
  qed
qed

lemma merge_loop_count:
  "length (fst (merge_loop clock i bs m u)) + snd (merge_loop clock i bs m u)
     = length m + u + length bs"
proof (induction bs arbitrary: i m u)
  case Nil
  show ?case by simp
next
  case (Cons b bs)
  let ?m1 = "Map_set (key_of b) (stamp b (key_of b) (clock i)) m"
  let ?u1 = "if key_of b \<in> fst ` set m then Suc u else u"
  have "length ?m1 + ?u1 = Suc (length m + u)"
    by (simp add: length_Map_set)
  then show ?case
    using Cons.IH [of "Suc i" ?m1 ?u1] by (simp only: merge_loop_Cons) simp
qed

lemma merge_loop_present:
  "key_of ` set bs \<subseteq> fst ` set m \<Longrightarrow>
     length (fst (merge_loop clock i bs m u)) = length m
     \<and> snd (merge_loop clock i bs m u) = u + length bs"
proof (induction bs arbitrary: i m u)
  case Nil
  show ?case by simp
next
  case (Cons b bs)
  let ?m1 = "Map_set (key_of b) (stamp b (key_of b) (clock i)) m"
  let ?u1 = "if key_of b \<in> fst ` set m then Suc u else u"
  from Cons.prems have b: "key_of b \<in> fst ` set m" and bs: "key_of ` set bs \<subseteq> fst ` set ?m1"
    by (auto simp: keys_Map_set)
  from b have "length ?m1 = length m" "?u1 = Suc u"
    by (simp_all add: length_Map_set)
  then show ?case
    using Cons.IH [OF bs, of "Suc i" ?u1] by (simp only: merge_loop_Cons) simp
qed

section \<open>Properties of mergeBooks\<close>

lemma mergeBooks_merged:
  "mergeBooks clock inc s =
     (map snd (fst (merged_map clock inc s)),
      \<lparr> total_count = length (fst (merged_map clock inc s)), updated = snd (merged_map clock inc s) \<rparr>)"
  by (simp add: mergeBooks_def merged_map_def Let_def Map_values_def Map_size_def)

lemma keyed_values:
  "\<forall>p\<in>set m. book_key (snd p) = fst p \<Longrightarrow> map book_key (map snd m) = map fst m"
  by (induction m) simp_all

lemma keyed_pairs:
  "\<forall>p\<in>set m. book_key (snd p) = fst p \<Longrightarrow> map (\<lambda>e. (book_key e, e)) (map snd m) = m"
  by (induction m) simp_all

lemma merged_subset:
  "set (fst (merged_map clock inc s))
     \<subseteq> (\<lambda>e. (book_key e, e)) ` set s \<union> {(key_of b, stamp b (key_of b) t) | b t. b \<in> set inc}"
proof -
  have "set (new_Map (map (\<lambda>e. (book_key e, e)) s)) \<subseteq> (\<lambda>e. (book_key e, e)) ` set s"
    using new_Map_subset [of "map (\<lambda>e. (book_key e, e)) s"] by simp
  then show ?thesis
    unfolding merged_map_def
    using merge_loop_subset [of clock 0 inc "new_Map (map (\<lambda>e. (book_key e, e)) s)" 0]
    by blast
qed

lemma merged_keyed: "\<forall>p\<in>set (fst (merged_map clock inc s)). book_key (snd p) = fst p"
  using merged_subset [of clock inc s] by (auto simp: key_of_stamp)

lemma merged_distinct: "distinct (map fst (fst (merged_map clock inc s)))"
  by (simp add: merged_map_def merge_loop_distinct new_Map_distinct_keys)

lemma merged_keys:
  "fst ` set (fst (merged_map clock inc s)) = book_key ` set s \<union> key_of ` set inc"
  by (simp add: merged_map_def merge_loop_keys new_Map_keys image_image)

lemma mergeBooks_book_keys:
  "map book_key (fst (mergeBooks clock inc s)) = map fst (fst (merged_map clock inc s))"
  by (simp only: mergeBooks_merged fst_conv keyed_values [OF merged_keyed])

lemma mergeBooks_distinct: "distinct (map book_key (fst (mergeBooks clock inc s)))"
  by (simp only: mergeBooks_book_keys merged_distinct)

lemma mergeBooks_keyset:
  "book_key ` set (fst (mergeBooks clock inc s)) = book_key ` set s \<union> key_of ` set inc"
proof -
  have "book_key ` set (fst (mergeBooks clock inc s)) = set (map book_key (fst (mergeBooks clock inc s)))"
    by simp
  also have "\<dots> = fst ` set (fst (merged_map clock inc s))"
    by (simp only: mergeBooks_book_keys set_map)
  finally show ?thesis
    by (simp only: merged_keys)
qed

lemma mergeBooks_entries:
  "set (fst (mergeBooks clock inc s)) \<subseteq> set s \<union> {stamp b (key_of b) t | b t. b \<in> set inc}"
proof
  fix e
  assume "e \<in> set (fst (mergeBooks clock inc s))"
  then obtain k where "(k, e) \<in> set (fst (merged_map clock inc s))"
    by (auto simp: mergeBooks_merged)
  then show "e \<in> set s \<union> {stamp b (key_of b) t | b t. b \<in> set inc}"
    using merged_subset [of clock inc s] by auto
qed

lemma mergeBooks_wf:
  assumes "list_all (\<lambda>e. book_key e = key_of e) s"
  shows "list_all (\<lambda>e. book_key e = key_of e) (fst (mergeBooks clock inc s))"
proof -
  have "book_key e = key_of e" if "e \<in> set (fst (mergeBooks clock inc s))" for e
  proof -
    from that mergeBooks_entries [of clock inc s]
    have "e \<in> set s \<or> (\<exists>b t. b \<in> set inc \<and> e = stamp b (key_of b) t)"
      by auto
    then show ?thesis
    proof
      assume "e \<in> set s"
      with assms show ?thesis by (simp add: list_all_iff)
    next
      assume "\<exists>b t. b \<in> set inc \<and> e = stamp b (key_of b) t"
      then show ?thesis by (auto simp: key_of_stamp wf_stamp)
    qed
  qed
  then show ?thesis
    by (simp add: list_all_iff)
qed

lemma mergeBooks_frame:
  assumes "distinct (map book_key s)" and "e \<in> set s" and "book_key e \<notin> key_of ` set inc"
  shows "e \<in> set (fst (mergeBooks clock inc s))"
proof -
  let ?ps = "map (\<lambda>e. (book_key e, e)) s"
  have "map fst ?ps = map book_key s"
    by simp
  with assms(1) have "new_Map ?ps = ?ps"
    by (simp only: new_Map_distinct)
  moreover have "(book_key e, e) \<in> set ?ps"
    using assms(2) by simp
  ultimately have "(book_key e, e) \<in> set (fst (merged_map clock inc s))"
    using assms(3) by (simp add: merged_map_def merge_loop_frame)
  then show ?thesis
    by (force simp: mergeBooks_merged)
qed

lemma mergeBooks_last:
  assumes "j < length inc"
    and "\<forall>j'<length inc. j < j' \<longrightarrow> key_of (inc ! j') \<noteq> key_of (inc ! j)"
  shows "stamp (inc ! j) (key_of (inc ! j)) (clock j) \<in> set (fst (mergeBooks clock inc s))"
proof -
  have "(key_of (inc ! j), stamp (inc ! j) (key_of (inc ! j)) (clock (0 + j)))
      \<in> set (fst (merged_map clock inc s))"
    unfolding merged_map_def using assms by (rule merge_loop_last)
  then show ?thesis
    by (force simp: mergeBooks_merged)
qed

lemma mergeBooks_total:
  "total_count (snd (mergeBooks clock inc s)) = length (fst (mergeBooks clock inc s))"
  by (simp add: mergeBooks_merged)

lemma mergeBooks_updated:
  "updated (snd (mergeBooks clock inc s)) + card (key_of ` set inc - book_key ` set s) = length inc"
proof -
  let ?m = "new_Map (map (\<lambda>e. (book_key e, e)) s)"
  let ?r = "merged_map clock inc s"
  let ?S = "book_key ` set s"
  let ?K = "key_of ` set inc"
  have count: "length (fst ?r) + snd ?r = length ?m + length inc"
    using merge_loop_count [of clock 0 inc ?m 0] by (simp add: merged_map_def)
  have "length (fst ?r) = card (set (map fst (fst ?r)))"
    using merged_distinct [of clock inc s] by (simp only: distinct_card length_map)
  then have l1: "length (fst ?r) = card (?S \<union> ?K)"
    by (simp only: set_map merged_keys)
  have "length ?m = card (set (map fst ?m))"
    using new_Map_distinct_keys [of "map (\<lambda>e. (book_key e, e)) s"]
    by (simp only: distinct_card length_map)
  then have l0: "length ?m = card ?S"
    by (simp only: set_map new_Map_keys) (simp add: image_image)
  have "?S \<union> ?K = ?S \<union> (?K - ?S)"
    by blast
  then have "card (?S \<union> ?K) = card (?S \<union> (?K - ?S))"
    by (rule arg_cong)
  also have "\<dots> = card ?S + card (?K - ?S)"
    by (rule card_Un_disjoint) auto
  finally have split: "card (?S \<union> ?K) = card ?S + card (?K - ?S)" .
  from count l0 l1 split have "snd ?r + card (?K - ?S) = length inc"
    by linarith
  then show ?thesis
    by (simp only: mergeBooks_merged snd_conv merge_result.simps)
qed

lemma mergeBooks_updated_distinct:
  assumes "distinct (map key_of inc)" and "distinct (map book_key s)"
  shows "updated (snd (mergeBooks clock inc s))
    = length (filter (\<lambda>e. book_key e \<in> key_of ` set inc) s)"
proof -
  let ?S = "book_key ` set s"
  let ?K = "key_of ` set inc"
  have "length inc = card (set (map key_of inc))"
    using assms(1) by (simp only: distinct_card length_map)
  then have len: "length inc = card ?K"
    by (simp only: set_map)
  have split: "card ?K = card (?K \<inter> ?S) + card (?K - ?S)"
    by (rule card_Int_Diff) simp
  have u: "updated (snd (mergeBooks clock inc s)) = card (?K \<inter> ?S)"
    using mergeBooks_updated [of clock inc s] len split by linarith
  have "filter (\<lambda>k. k \<in> ?K) (map book_key s) = map book_key (filter (\<lambda>e. book_key e \<in> ?K) s)"
    by (simp only: filter_map comp_def)
  then have "length (filter (\<lambda>e. book_key e \<in> ?K) s)
      = length (filter (\<lambda>k. k \<in> ?K) (map book_key s))"
    by (simp only: length_map)
  also have "\<dots> = card (set (filter (\<lambda>k. k \<in> ?K) (map book_key s)))"
    using assms(2) by (simp only: distinct_card distinct_filter)
  also have "set (filter (\<lambda>k. k \<in> ?K) (map book_key s)) = ?K \<inter> ?S"
    by auto
  finally show ?thesis
    using u by (simp only:)
qed

section \<open>Properties of upsertBook and of sequences of operations\<close>

lemma upsert_absent:
  assumes "key_of b \<notin> book_key ` set s"
  shows "upsertBook now b s = s @ [stamp b (key_of b) now]"
proof -
  have "\<forall>e\<in>set s. \<not> book_key e = key_of b"
  proof
    fix e
    assume "e \<in> set s"
    then have "book_key e \<in> book_key ` set s"
      by (rule imageI)
    with assms show "\<not> book_key e = key_of b"
      by metis
  qed
  then have "findIndex (\<lambda>e. book_key e = key_of b) s = None"
    by (simp only: findIndex_None)
  then show ?thesis
    by (simp add: upsertBook_def Let_def key_of_def)
qed

lemma upsert_present:
  assumes "key_of b \<in> book_key ` set s"
  shows "\<exists>i<length s. book_key (s ! i) = key_of b \<and> (\<forall>j<i. book_key (s ! j) \<noteq> key_of b)
     \<and> upsertBook now b s = s[i := stamp b (key_of b) now]"
proof -
  from assms have "findIndex (\<lambda>e. book_key e = key_of b) s \<noteq> None"
    by (auto simp: findIndex_None)
  then obtain i where i: "findIndex (\<lambda>e. book_key e = key_of b) s = Some i"
    by auto
  from findIndex_Some [OF i]
  have "i < length s" "book_key (s ! i) = key_of b" "\<forall>j<i. book_key (s ! j) \<noteq> key_of b"
    by simp_all
  moreover have "upsertBook now b s = s[i := stamp b (key_of b) now]"
    using i by (simp add: upsertBook_def Let_def key_of_def)
  ultimately show ?thesis
    by blast
qed

lemma upsert_invariant:
  assumes "store_invariant s"
  shows "store_invariant (upsertBook now b s)"
proof (cases "key_of b \<in> book_key ` set s")
  case False
  then have "upsertBook now b s = s @ [stamp b (key_of b) now]"
    by (rule upsert_absent)
  then show ?thesis
    using assms False by (simp add: store_invariant_def key_of_stamp wf_stamp)
next
  case True
  then obtain i where i: "i < length s" "book_key (s ! i) = key_of b"
    and up: "upsertBook now b s = s[i := stamp b (key_of b) now]"
    using upsert_present [of b s now] by blast
  have "map book_key (s[i := stamp b (key_of b) now]) = (map book_key s)[i := key_of b]"
    by (simp add: map_update key_of_stamp)
  also have "\<dots> = map book_key s"
    using i by (simp add: list_update_same_conv)
  finally have keys: "map book_key (upsertBook now b s) = map book_key s"
    by (simp only: up)
  have "set (s[i := stamp b (key_of b) now]) \<subseteq> insert (stamp b (key_of b) now) (set s)"
    by (rule set_update_subset_insert)
  then have "list_all (\<lambda>e. book_key e = key_of e) (s[i := stamp b (key_of b) now])"
    using assms by (auto simp: store_invariant_def list_all_iff key_of_stamp wf_stamp)
  then show ?thesis
    using assms keys by (simp add: store_invariant_def up)
qed

lemma merge_invariant:
  "store_invariant s \<Longrightarrow> store_invariant (fst (mergeBooks clock inc s))"
  by (simp add: store_invariant_def mergeBooks_distinct mergeBooks_wf)

lemma apply_op_invariant: "store_invariant s \<Longrightarrow> store_invariant (apply_op s op)"
  by (cases op) (simp_all add: merge_invariant upsert_invariant)

lemma foldl_invariant: "store_invariant s \<Longrightarrow> store_invariant (foldl apply_op s ops)"
  by (induction ops arbitrary: s) (simp_all add: apply_op_invariant)

lemma run_ops_invariant: "store_invariant (run_ops ops)"
proof -
  have "store_invariant []"
    by (simp add: store_invariant_def)
  then show ?thesis
    unfolding run_ops_def by (rule foldl_invariant)
qed

section \<open>Evaluated examples\<close>

lemma stamp_fields:
  "stamp b k n = \<lparr> title = title b, author = author b, rating = rating b, shelf = shelf b,
     genre = genre b, review = review b, bookshelves = bookshelves b, isbn = isbn b,
     source = source b, book_key = k, date_updated = n \<rparr>"
  by (simp add: stamp_def book_fields.defs)

lemma example_run:
  "run_ops example_ops =
     [\<lparr> title = ''Dune'', author = ''Frank Herbert'', rating = 4, shelf = ''read'',
        genre = None, review = None, bookshelves = None, isbn = None, source = manual,
        book_key = ''dune::frank herbert'', date_updated = noon \<rparr>,
      \<lparr> title = ''Emma'', author = ''Jane Austen'', rating = 3, shelf = ''to-read'',
        genre = None, review = None, bookshelves = None, isbn = None, source = manual,
        book_key = ''emma::jane austen'', date_updated = later \<rparr>]"
  by code_simp

lemma example_frame:
  "key_of dune_manual = ''dune::frank herbert''"
  "key_of emma_manual = ''emma::jane austen''"
  "fst (mergeBooks (\<lambda>i. later) [dune_manual] (run_ops example_ops)) =
     [stamp dune_manual ''dune::frank herbert'' later, stamp emma_manual ''emma::jane austen'' later]"
  "run_ops example_ops =
     [stamp dune_manual ''dune::frank herbert'' noon, stamp emma_manual ''emma::jane austen'' later]"
  by code_simp+

section \<open>C1: merge and upsert\<close>

text \<open>
  C1. For every input list and every prior store, \<open>mergeBooks\<close> leaves one record per key;
  the record under the key of an input record is that input record (the last one, when
  several input records share the key) with the key and the clock reading of its loop
  iteration, and with no field of the record it replaces; the keys afterwards are the prior
  keys and the input keys; \<open>total\<close> is the number of records afterwards. The claim that
  \<open>updated\<close> is the number of records that existed before the call and were overwritten
  fails when two input records share a key: \<open>updated\<close> counts every input record whose key
  is in the map when the record is processed, so it is the size of the input less the
  number of keys the call adds. For inputs with pairwise distinct keys it is the number of
  prior records that are overwritten. \<open>upsertBook\<close> replaces the first record with the key,
  or appends when there is none.
\<close>

theorem merge_and_upsert_semantics:
  "distinct (map book_key (fst (mergeBooks clock incoming store)))
   \<and> (\<forall>j<length incoming.
        (\<forall>j'<length incoming. j < j' \<longrightarrow> key_of (incoming ! j') \<noteq> key_of (incoming ! j))
        \<longrightarrow> stamp (incoming ! j) (key_of (incoming ! j)) (clock j)
              \<in> set (fst (mergeBooks clock incoming store)))
   \<and> book_key ` set (fst (mergeBooks clock incoming store))
       = book_key ` set store \<union> key_of ` set incoming
   \<and> total_count (snd (mergeBooks clock incoming store))
       = length (fst (mergeBooks clock incoming store))
   \<and> updated (snd (mergeBooks clock incoming store))
       + card (key_of ` set incoming - book_key ` set store) = length incoming
   \<and> (distinct (map key_of incoming) \<and> distinct (map book_key store)
        \<longrightarrow> updated (snd (mergeBooks clock incoming store))
              = length (filter (\<lambda>e. book_key e \<in> key_of ` set incoming) store))
   \<and> stamp b k now = \<lparr> title = title b, author = author b, rating = rating b, shelf = shelf b,
        genre = genre b, review = review b, bookshelves = bookshelves b, isbn = isbn b,
        source = source b, book_key = k, date_updated = now \<rparr>
   \<and> (key_of b \<notin> book_key ` set store
        \<longrightarrow> upsertBook now b store = store @ [stamp b (key_of b) now])
   \<and> (key_of b \<in> book_key ` set store
        \<longrightarrow> (\<exists>i<length store. book_key (store ! i) = key_of b
              \<and> (\<forall>j<i. book_key (store ! j) \<noteq> key_of b)
              \<and> upsertBook now b store = store[i := stamp b (key_of b) now]))"
proof (intro conjI)
  show "distinct (map book_key (fst (mergeBooks clock incoming store)))"
    by (rule mergeBooks_distinct)
  show "\<forall>j<length incoming.
        (\<forall>j'<length incoming. j < j' \<longrightarrow> key_of (incoming ! j') \<noteq> key_of (incoming ! j))
        \<longrightarrow> stamp (incoming ! j) (key_of (incoming ! j)) (clock j)
              \<in> set (fst (mergeBooks clock incoming store))"
    using mergeBooks_last by blast
  show "book_key ` set (fst (mergeBooks clock incoming store))
       = book_key ` set store \<union> key_of ` set incoming"
    by (rule mergeBooks_keyset)
  show "total_count (snd (mergeBooks clock incoming store))
       = length (fst (mergeBooks clock incoming store))"
    by (rule mergeBooks_total)
  show "updated (snd (mergeBooks clock incoming store))
       + card (key_of ` set incoming - book_key ` set store) = length incoming"
    by (rule mergeBooks_updated)
  show "distinct (map key_of incoming) \<and> distinct (map book_key store)
        \<longrightarrow> updated (snd (mergeBooks clock incoming store))
              = length (filter (\<lambda>e. book_key e \<in> key_of ` set incoming) store)"
    using mergeBooks_updated_distinct by blast
  show "stamp b k now = \<lparr> title = title b, author = author b, rating = rating b, shelf = shelf b,
        genre = genre b, review = review b, bookshelves = bookshelves b, isbn = isbn b,
        source = source b, book_key = k, date_updated = now \<rparr>"
    by (rule stamp_fields)
  show "key_of b \<notin> book_key ` set store
        \<longrightarrow> upsertBook now b store = store @ [stamp b (key_of b) now]"
    using upsert_absent by blast
  show "key_of b \<in> book_key ` set store
        \<longrightarrow> (\<exists>i<length store. book_key (store ! i) = key_of b
              \<and> (\<forall>j<i. book_key (store ! j) \<noteq> key_of b)
              \<and> upsertBook now b store = store[i := stamp b (key_of b) now])"
    using upsert_present by blast
qed

lemma example_upsert:
  "mergeBooks (\<lambda>i. later) [dune_manual, emma_manual] [dune_entry]
     = ([stamp dune_manual ''dune::frank herbert'' later,
         stamp emma_manual ''emma::jane austen'' later],
        \<lparr> total_count = 2, updated = 1 \<rparr>)"
  "upsertBook later dune_manual [dune_entry] = [stamp dune_manual ''dune::frank herbert'' later]"
  "upsertBook later emma_manual [dune_entry]
     = [dune_entry, stamp emma_manual ''emma::jane austen'' later]"
  "book_key dune_entry = ''dune::frank herbert''"
  by code_simp+

theorem merge_and_upsert_semantics_witness:
  "distinct (map key_of [dune_manual, emma_manual]) \<and> distinct (map book_key [dune_entry])
   \<and> key_of dune_manual \<in> book_key ` set [dune_entry]
   \<and> key_of emma_manual \<notin> book_key ` set [dune_entry]
   \<and> mergeBooks (\<lambda>i. later) [dune_manual, emma_manual] [dune_entry]
       = ([stamp dune_manual ''dune::frank herbert'' later,
           stamp emma_manual ''emma::jane austen'' later],
          \<lparr> total_count = 2, updated = 1 \<rparr>)
   \<and> updated (snd (mergeBooks (\<lambda>i. later) [dune_manual, emma_manual] [dune_entry]))
       = length (filter (\<lambda>e. book_key e \<in> key_of ` set [dune_manual, emma_manual]) [dune_entry])
   \<and> upsertBook later emma_manual [dune_entry]
       = [dune_entry] @ [stamp emma_manual (key_of emma_manual) later]
   \<and> upsertBook later dune_manual [dune_entry] = [stamp dune_manual ''dune::frank herbert'' later]
   \<and> stamp ([dune_manual, emma_manual] ! 0) (key_of ([dune_manual, emma_manual] ! 0)) later
       \<in> set (fst (mergeBooks (\<lambda>i. later) [dune_manual, emma_manual] [dune_entry]))"
proof -
  have d: "distinct (map key_of [dune_manual, emma_manual])" "distinct (map book_key [dune_entry])"
    by (simp_all add: example_frame)
  have k: "key_of dune_manual \<in> book_key ` set [dune_entry]"
    "key_of emma_manual \<notin> book_key ` set [dune_entry]"
    by (simp_all add: example_frame example_upsert)
  have l: "0 < length [dune_manual, emma_manual]"
    "\<forall>j'<length [dune_manual, emma_manual]. 0 < j' \<longrightarrow>
       key_of ([dune_manual, emma_manual] ! j') \<noteq> key_of ([dune_manual, emma_manual] ! 0)"
    by (auto simp: less_Suc_eq example_frame)
  from merge_and_upsert_semantics [of "\<lambda>i. later" "[dune_manual, emma_manual]" "[dune_entry]"
      emma_manual _ later]
  have "updated (snd (mergeBooks (\<lambda>i. later) [dune_manual, emma_manual] [dune_entry]))
       = length (filter (\<lambda>e. book_key e \<in> key_of ` set [dune_manual, emma_manual]) [dune_entry])"
    and "upsertBook later emma_manual [dune_entry]
       = [dune_entry] @ [stamp emma_manual (key_of emma_manual) later]"
    and "stamp ([dune_manual, emma_manual] ! 0) (key_of ([dune_manual, emma_manual] ! 0)) later
       \<in> set (fst (mergeBooks (\<lambda>i. later) [dune_manual, emma_manual] [dune_entry]))"
    using d k l by blast+
  then show ?thesis
    using d k example_upsert by blast
qed

theorem merge_updated_count_counterexample:
  "mergeBooks (\<lambda>i. noon) [dune_manual, dune_manual] []
     = ([\<lparr> title = ''Dune'', author = ''Frank Herbert'', rating = 4, shelf = ''read'',
           genre = None, review = None, bookshelves = None, isbn = None, source = manual,
           book_key = ''dune::frank herbert'', date_updated = ''2024-05-01T12:00:00.000Z'' \<rparr>],
        \<lparr> total_count = 1, updated = 1 \<rparr>)
   \<and> length (filter (\<lambda>e. book_key e \<in> key_of ` set [dune_manual, dune_manual])
        ([] :: BookEntry list)) = 0"
  by code_simp


section \<open>C2: the invariant of the store\<close>

text \<open>
  C2. In every store reached from the empty store by a sequence of \<open>mergeBooks\<close> and
  \<open>upsertBook\<close> calls, no two records have the same \<open>book_key\<close>, and the \<open>book_key\<close> of each
  record is the key made from its own title and author.
\<close>

theorem reachable_store_invariant:
  "distinct (map book_key (run_ops ops))
   \<and> (\<forall>e\<in>set (run_ops ops). book_key e = makeKey (title e) (author e))"
  using run_ops_invariant [of ops]
  by (simp add: store_invariant_def list_all_iff key_of_def)

theorem reachable_store_invariant_witness:
  "map book_key (run_ops example_ops) = [''dune::frank herbert'', ''emma::jane austen'']
   \<and> distinct (map book_key (run_ops example_ops))
   \<and> list_all (\<lambda>e. book_key e = makeKey (title e) (author e)) (run_ops example_ops)"
proof -
  have keys: "map book_key (run_ops example_ops) = [''dune::frank herbert'', ''emma::jane austen'']"
    by (simp add: example_run)
  from reachable_store_invariant [of example_ops]
  have "distinct (map book_key (run_ops example_ops))"
    and "list_all (\<lambda>e. book_key e = makeKey (title e) (author e)) (run_ops example_ops)"
    unfolding list_all_iff by blast+
  with keys show ?thesis
    by blast
qed

section \<open>C3: merging the same input twice\<close>

text \<open>
  C3. For every input list (and every prior store and clock), a second \<open>mergeBooks\<close> with
  the same input returns the \<open>total\<close> that the first returned, and an \<open>updated\<close> equal to
  the length of the input.
\<close>

theorem merge_twice_counts:
  "total_count (snd (mergeBooks clock2 incoming (fst (mergeBooks clock1 incoming store))))
     = total_count (snd (mergeBooks clock1 incoming store))
   \<and> updated (snd (mergeBooks clock2 incoming (fst (mergeBooks clock1 incoming store))))
     = length incoming"
proof -
  let ?m1 = "fst (merged_map clock1 incoming store)"
  have s1: "fst (mergeBooks clock1 incoming store) = map snd ?m1"
    by (simp only: mergeBooks_merged fst_conv)
  have "map (\<lambda>e. (book_key e, e)) (map snd ?m1) = ?m1"
    by (simp only: keyed_pairs [OF merged_keyed])
  moreover have "new_Map ?m1 = ?m1"
    using merged_distinct by (rule new_Map_distinct)
  ultimately have m2: "merged_map clock2 incoming (map snd ?m1) = merge_loop clock2 0 incoming ?m1 0"
    by (simp only: merged_map_def)
  have "key_of ` set incoming \<subseteq> fst ` set ?m1"
    by (simp only: merged_keys) blast
  then have "length (fst (merge_loop clock2 0 incoming ?m1 0)) = length ?m1
      \<and> snd (merge_loop clock2 0 incoming ?m1 0) = 0 + length incoming"
    by (rule merge_loop_present)
  then have "length (fst (merged_map clock2 incoming (map snd ?m1))) = length ?m1
      \<and> snd (merged_map clock2 incoming (map snd ?m1)) = length incoming"
    by (simp only: m2 add_0)
  then show ?thesis
    by (simp only: s1 mergeBooks_merged [of clock2] mergeBooks_merged [of clock1] fst_conv snd_conv
        merge_result.simps)
qed

lemma example_twice:
  "snd (mergeBooks (\<lambda>i. noon) [dune_manual, emma_manual, dune_manual] [])
     = \<lparr> total_count = 2, updated = 1 \<rparr>"
  "snd (mergeBooks (\<lambda>i. later) [dune_manual, emma_manual, dune_manual]
     (fst (mergeBooks (\<lambda>i. noon) [dune_manual, emma_manual, dune_manual] [])))
     = \<lparr> total_count = 2, updated = 3 \<rparr>"
  by code_simp+

theorem merge_twice_counts_witness:
  "total_count (snd (mergeBooks (\<lambda>i. noon) [dune_manual, emma_manual, dune_manual] [])) = 2
   \<and> snd (mergeBooks (\<lambda>i. later) [dune_manual, emma_manual, dune_manual]
       (fst (mergeBooks (\<lambda>i. noon) [dune_manual, emma_manual, dune_manual] [])))
     = \<lparr> total_count = 2, updated = length [dune_manual, emma_manual, dune_manual] \<rparr>"
  using merge_twice_counts [of "\<lambda>i. later" "[dune_manual, emma_manual, dune_manual]" "\<lambda>i. noon" "[]"]
  by (simp add: example_twice)

section \<open>C10: what a merge leaves alone\<close>

text \<open>
  C10. After \<open>mergeBooks\<close> the keys of the store are the prior keys together with the keys of
  the input, so no key is lost; and in a store with one record per key, in particular in
  every store reached from the empty one, each record whose key is the key of no input
  record is still in the store, unchanged, and the store has not become shorter.
\<close>

theorem merge_frame_reachable:
  "book_key ` set (fst (mergeBooks clock incoming store)) = book_key ` set store \<union> key_of ` set incoming
   \<and> (distinct (map book_key store) \<longrightarrow>
        (\<forall>e\<in>set store. book_key e \<notin> key_of ` set incoming
           \<longrightarrow> e \<in> set (fst (mergeBooks clock incoming store))))
   \<and> (\<forall>e\<in>set (run_ops ops). book_key e \<notin> key_of ` set incoming
           \<longrightarrow> e \<in> set (fst (mergeBooks clock incoming (run_ops ops))))
   \<and> length (run_ops ops) \<le> length (fst (mergeBooks clock incoming (run_ops ops)))"
proof (intro conjI)
  show "book_key ` set (fst (mergeBooks clock incoming store))
      = book_key ` set store \<union> key_of ` set incoming"
    by (rule mergeBooks_keyset)
  show "distinct (map book_key store) \<longrightarrow>
        (\<forall>e\<in>set store. book_key e \<notin> key_of ` set incoming
           \<longrightarrow> e \<in> set (fst (mergeBooks clock incoming store)))"
    using mergeBooks_frame by blast
  have d: "distinct (map book_key (run_ops ops))"
    using run_ops_invariant [of ops] by (simp add: store_invariant_def)
  then show "\<forall>e\<in>set (run_ops ops). book_key e \<notin> key_of ` set incoming
           \<longrightarrow> e \<in> set (fst (mergeBooks clock incoming (run_ops ops)))"
    using mergeBooks_frame by blast
  let ?s = "run_ops ops"
  let ?s' = "fst (mergeBooks clock incoming ?s)"
  have "card (set (map book_key ?s)) = length (map book_key ?s)"
    using d by (rule distinct_card)
  then have "length ?s = card (book_key ` set ?s)"
    by simp
  also have "\<dots> \<le> card (book_key ` set ?s')"
    by (rule card_mono) (simp_all add: mergeBooks_keyset)
  also have "card (book_key ` set ?s') = length ?s'"
    using distinct_card [OF mergeBooks_distinct [of clock incoming ?s]] by simp
  finally show "length ?s \<le> length ?s'" .
qed


theorem merge_frame_reachable_witness:
  "stamp emma_manual ''emma::jane austen'' later \<in> set (run_ops example_ops)
   \<and> book_key (stamp emma_manual ''emma::jane austen'' later) \<notin> key_of ` set [dune_manual]
   \<and> stamp emma_manual ''emma::jane austen'' later
       \<in> set (fst (mergeBooks (\<lambda>i. later) [dune_manual] (run_ops example_ops)))
   \<and> book_key ` set (fst (mergeBooks (\<lambda>i. later) [dune_manual] (run_ops example_ops)))
       = book_key ` set (run_ops example_ops) \<union> key_of ` set [dune_manual]"
proof -
  have a: "stamp emma_manual ''emma::jane austen'' later \<in> set (run_ops example_ops)"
    by (simp add: example_frame)
  have b: "book_key (stamp emma_manual ''emma::jane austen'' later) \<notin> key_of ` set [dune_manual]"
    by (simp add: example_frame key_of_stamp)
  from merge_frame_reachable [of "\<lambda>i. later" "[dune_manual]" "run_ops example_ops" example_ops]
  show ?thesis
    using a b by blast
qed

end
